theory Spec2Isabelle
  imports Complex_Main "HOL-Library.Multiset"
begin

section \<open>JavaScript numbers\<close>

text \<open>
  The fitting code of the GMM demo computes with JavaScript numbers. They are modelled
  here with their special values written out and exact real arithmetic on the finite
  ones: \<open>NaN\<close>, the two infinities, and \<open>Fin r\<close> for a finite number \<open>r\<close>. Division by
  zero, \<open>0/0\<close>, \<open>Infinity - Infinity\<close>, \<open>Infinity * 0\<close>, the square root and logarithm of a
  negative number and every operation on \<open>NaN\<close> behave as in JavaScript. Rounding,
  overflow and underflow of finite results are not modelled (\<open>Math.PI\<close> is \<open>pi\<close>, a
  literal is the rational it denotes), and there is a single zero: every divisor of the
  code is a sum of products of non-negative numbers, so a negative zero never reaches a
  division. The control flow, the array shapes, the indices and the special values are
  those of the code; a finite value is the value of the exact arithmetic that the double
  approximates. Where the code takes one of two branches on an exact comparison (a
  variance that is exactly 0, a density that underflows to 0), rounding and underflow
  can make the doubles take the other one: the exact arithmetic always finds variance 0
  on a constant dataset and never finds a zero density. The lemmas below that say so
  (\<open>simpleGMM_constant\<close>, \<open>simpleGMM_nonconstant\<close>, \<open>kept_candidate_finite\<close>) are facts of
  the exact arithmetic; the theorems on the selection, on constant data and on the sum of
  the weights are stated so that they hold whichever branch is taken.
\<close>

datatype jsnum = NaN | NInf | Fin real | PInf

instantiation jsnum :: "{plus, minus, uminus, times, inverse}"
begin

fun plus_jsnum :: "jsnum \<Rightarrow> jsnum \<Rightarrow> jsnum" where
  "plus_jsnum NaN b = NaN"
| "plus_jsnum a NaN = NaN"
| "plus_jsnum (Fin a) (Fin b) = Fin (a + b)"
| "plus_jsnum PInf NInf = NaN"
| "plus_jsnum NInf PInf = NaN"
| "plus_jsnum PInf b = PInf"
| "plus_jsnum a PInf = PInf"
| "plus_jsnum NInf b = NInf"
| "plus_jsnum a NInf = NInf"

fun uminus_jsnum :: "jsnum \<Rightarrow> jsnum" where
  "uminus_jsnum NaN = NaN"
| "uminus_jsnum NInf = PInf"
| "uminus_jsnum (Fin a) = Fin (- a)"
| "uminus_jsnum PInf = NInf"

definition minus_jsnum :: "jsnum \<Rightarrow> jsnum \<Rightarrow> jsnum" where
  "minus_jsnum a b = a + (- b)"

fun times_jsnum :: "jsnum \<Rightarrow> jsnum \<Rightarrow> jsnum" where
  "times_jsnum NaN b = NaN"
| "times_jsnum a NaN = NaN"
| "times_jsnum (Fin a) (Fin b) = Fin (a * b)"
| "times_jsnum (Fin a) PInf = (if a = 0 then NaN else if 0 < a then PInf else NInf)"
| "times_jsnum (Fin a) NInf = (if a = 0 then NaN else if 0 < a then NInf else PInf)"
| "times_jsnum PInf (Fin b) = (if b = 0 then NaN else if 0 < b then PInf else NInf)"
| "times_jsnum NInf (Fin b) = (if b = 0 then NaN else if 0 < b then NInf else PInf)"
| "times_jsnum PInf PInf = PInf"
| "times_jsnum NInf NInf = PInf"
| "times_jsnum PInf NInf = NInf"
| "times_jsnum NInf PInf = NInf"

fun divide_jsnum :: "jsnum \<Rightarrow> jsnum \<Rightarrow> jsnum" where
  "divide_jsnum NaN b = NaN"
| "divide_jsnum a NaN = NaN"
| "divide_jsnum (Fin a) (Fin b) =
     (if b = 0 then (if a = 0 then NaN else if 0 < a then PInf else NInf)
      else Fin (a / b))"
| "divide_jsnum (Fin a) PInf = Fin 0"
| "divide_jsnum (Fin a) NInf = Fin 0"
| "divide_jsnum PInf (Fin b) = (if 0 \<le> b then PInf else NInf)"
| "divide_jsnum NInf (Fin b) = (if 0 \<le> b then NInf else PInf)"
| "divide_jsnum PInf PInf = NaN"
| "divide_jsnum PInf NInf = NaN"
| "divide_jsnum NInf PInf = NaN"
| "divide_jsnum NInf NInf = NaN"

definition inverse_jsnum :: "jsnum \<Rightarrow> jsnum" where
  "inverse_jsnum a = divide (Fin 1) a"

instance ..

end

text \<open>\<open>Math.sqrt\<close>, \<open>Math.exp\<close>, \<open>Math.log\<close>, \<open>Math.abs\<close> and \<open>Math.pow(x, 2)\<close>.\<close>

fun Math_sqrt :: "jsnum \<Rightarrow> jsnum" where
  "Math_sqrt NaN = NaN"
| "Math_sqrt NInf = NaN"
| "Math_sqrt (Fin a) = (if a < 0 then NaN else Fin (sqrt a))"
| "Math_sqrt PInf = PInf"

fun Math_exp :: "jsnum \<Rightarrow> jsnum" where
  "Math_exp NaN = NaN"
| "Math_exp NInf = Fin 0"
| "Math_exp (Fin a) = Fin (exp a)"
| "Math_exp PInf = PInf"

fun Math_log :: "jsnum \<Rightarrow> jsnum" where
  "Math_log NaN = NaN"
| "Math_log NInf = NaN"
| "Math_log (Fin a) = (if a < 0 then NaN else if a = 0 then NInf else Fin (ln a))"
| "Math_log PInf = PInf"

fun Math_abs :: "jsnum \<Rightarrow> jsnum" where
  "Math_abs NaN = NaN"
| "Math_abs NInf = PInf"
| "Math_abs (Fin a) = Fin \<bar>a\<bar>"
| "Math_abs PInf = PInf"

definition Math_pow2 :: "jsnum \<Rightarrow> jsnum" where
  "Math_pow2 x = x * x"

text \<open>The comparisons \<open><\<close> and \<open>>=\<close>: false as soon as one side is \<open>NaN\<close>.\<close>

fun js_lt :: "jsnum \<Rightarrow> jsnum \<Rightarrow> bool" where
  "js_lt NaN b = False"
| "js_lt a NaN = False"
| "js_lt (Fin a) (Fin b) = (a < b)"
| "js_lt a NInf = False"
| "js_lt NInf b = True"
| "js_lt PInf b = False"
| "js_lt a PInf = True"

fun js_ge :: "jsnum \<Rightarrow> jsnum \<Rightarrow> bool" where
  "js_ge NaN b = False"
| "js_ge a NaN = False"
| "js_ge a b = (\<not> js_lt a b)"

definition isNaN :: "jsnum \<Rightarrow> bool" where
  "isNaN x = (x = NaN)"

text \<open>
  \<open>Math.max(...xs)\<close>: \<open>-Infinity\<close> for no argument, \<open>NaN\<close> as soon as one argument is
  \<open>NaN\<close>, the largest argument otherwise.
\<close>

definition js_max2 :: "jsnum \<Rightarrow> jsnum \<Rightarrow> jsnum" where
  "js_max2 a b = (if a = NaN \<or> b = NaN then NaN else if js_lt a b then b else a)"

definition Math_max :: "jsnum list \<Rightarrow> jsnum" where
  "Math_max xs = foldl js_max2 NInf xs"

text \<open>
  \<open>xs.indexOf(v)\<close> compares with \<open>===\<close>, under which \<open>NaN\<close> equals nothing, and answers
  \<open>-1\<close> when no element matches.
\<close>

fun indexOf_from :: "int \<Rightarrow> jsnum list \<Rightarrow> jsnum \<Rightarrow> int" where
  "indexOf_from i [] v = - 1"
| "indexOf_from i (x # xs) v = (if x \<noteq> NaN \<and> x = v then i else indexOf_from (i + 1) xs v)"

definition indexOf :: "jsnum list \<Rightarrow> jsnum \<Rightarrow> int" where
  "indexOf xs v = indexOf_from 0 xs v"

text \<open>
  Reading a number array at an index. Out of range JavaScript answers \<open>undefined\<close>, which
  every use in this code turns into \<open>NaN\<close> (arithmetic, \<open>Math.sqrt\<close>, \<open>isNaN\<close>).
  Writing at an index beyond the end extends the array, the holes reading as
  \<open>undefined\<close>.
\<close>

definition nth_js :: "jsnum list \<Rightarrow> nat \<Rightarrow> jsnum" where
  "nth_js xs i = (if i < length xs then xs ! i else NaN)"

definition nth_int :: "jsnum list \<Rightarrow> int \<Rightarrow> jsnum" where
  "nth_int xs i = (if 0 \<le> i then nth_js xs (nat i) else NaN)"

definition assign_js :: "jsnum list \<Rightarrow> nat \<Rightarrow> jsnum \<Rightarrow> jsnum list" where
  "assign_js xs i v =
     (if i < length xs then xs[i := v] else xs @ replicate (i - length xs) NaN @ [v])"

text \<open>
  The exception the fitting code could raise: a \<open>TypeError\<close>, from \<open>reduce\<close> on an empty
  array without initial value or from indexing \<open>undefined\<close>. Arithmetic, \<open>Math\<close>
  functions, reads of number arrays out of range and comparisons never raise.
\<close>

datatype js_error = TypeError

text \<open>
  \<open>xs.reduce(f)\<close> without an initial value: a \<open>TypeError\<close> on the empty array, otherwise
  the fold from the first element over the rest.
\<close>

definition reduce_js :: "('a \<Rightarrow> 'a \<Rightarrow> 'a) \<Rightarrow> 'a list \<Rightarrow> js_error + 'a" where
  "reduce_js f xs = (case xs of [] \<Rightarrow> Inl TypeError | x # rest \<Rightarrow> Inr (foldl f x rest))"

section \<open>The mixture model\<close>

text \<open>
  The object the fit returns. \<open>isSimple\<close> is set by the small-sample path only (absent,
  hence falsy, otherwise); \<open>bic\<close> and \<open>passesWeightConstraint\<close> are the two properties the
  selector adds to each candidate, absent before.
\<close>

record model =
  nComponents :: nat
  means :: "jsnum list"
  variances :: "jsnum list"
  weights :: "jsnum list"
  isSimple :: bool
  bic :: "jsnum option"
  passesWeightConstraint :: "bool option"

text \<open>The literal \<open>1e-10\<close> of the E-step and of the log-likelihood.\<close>

definition tiny :: real where
  "tiny = 1 / 10 ^ 10"

subsection \<open>gaussianPDF\<close>

definition gaussianPDF :: "jsnum \<Rightarrow> jsnum \<Rightarrow> jsnum \<Rightarrow> jsnum" where
  "gaussianPDF x mean stdDev =
     (let coefficient = Fin 1 / (stdDev * Math_sqrt (Fin 2 * Fin pi));
          exponent = - Math_pow2 (x - mean) / (Fin 2 * Math_pow2 stdDev)
      in coefficient * Math_exp exponent)"

subsection \<open>simpleMeanStd\<close>

definition simpleMeanStd :: "real list \<Rightarrow> model" where
  "simpleMeanStd data =
     (let n = length data;
          mean = foldl (\<lambda>sum v. sum + Fin v) (Fin 0) data / Fin (real n);
          variance =
            (if 3 \<le> n
             then foldl (\<lambda>sum v. sum + Math_pow2 (Fin v - mean)) (Fin 0) data / Fin (real n - 1)
             else NaN)
      in \<lparr>nComponents = 1, means = [mean], variances = [variance], weights = [Fin 1],
          isSimple = True, bic = None, passesWeightConstraint = None\<rparr>)"

subsection \<open>initializeMeans\<close>

text \<open>
  The data are the validated input: finite numbers, so the comparator \<open>a - b\<close> sorts
  them in ascending order. The indices are integers far below \<open>2^53\<close>, where the
  floating-point quotient floors to the integer quotient.
\<close>

definition sorted_at :: "real list \<Rightarrow> nat \<Rightarrow> jsnum" where
  "sorted_at sortedData i = (if i < length sortedData then Fin (sortedData ! i) else NaN)"

definition initializeMeans :: "real list \<Rightarrow> nat \<Rightarrow> jsnum list" where
  "initializeMeans data k =
     (let sortedData = sort data
      in if k = 1 then [sorted_at sortedData (length sortedData div 2)]
         else if k = 2 then
           [sorted_at sortedData (length sortedData div 3),
            sorted_at sortedData (2 * length sortedData div 3)]
         else map (\<lambda>i. sorted_at sortedData ((i + 1) * length sortedData div (k + 1))) [0..<k])"

subsection \<open>calculateLogLikelihood and calculateBIC\<close>

definition mixture_density :: "jsnum list \<Rightarrow> jsnum list \<Rightarrow> jsnum list \<Rightarrow> real \<Rightarrow> jsnum" where
  "mixture_density ms vs ws x =
     foldl (\<lambda>sum j. sum + nth_js ws j * gaussianPDF (Fin x) (nth_js ms j) (Math_sqrt (nth_js vs j)))
       (Fin 0) [0..<length ms]"

definition calculateLogLikelihood ::
  "real list \<Rightarrow> jsnum list \<Rightarrow> jsnum list \<Rightarrow> jsnum list \<Rightarrow> jsnum" where
  "calculateLogLikelihood data ms vs ws =
     foldl (\<lambda>logLikelihood x. logLikelihood + Math_log (mixture_density ms vs ws x + Fin tiny))
       (Fin 0) data"

definition numParams :: "nat \<Rightarrow> int" where
  "numParams k = int k + int k + (int k - 1)"

definition calculateBIC :: "real list \<Rightarrow> model \<Rightarrow> jsnum" where
  "calculateBIC data m =
     (let n = length data;
          logLikelihood = calculateLogLikelihood data (means m) (variances m) (weights m)
      in Fin (- 2) * logLikelihood + Fin (of_int (numParams (nComponents m))) * Math_log (Fin (real n)))"

subsection \<open>simpleGMM\<close>

text \<open>The E-step: one row of normalised responsibilities per sample.\<close>

definition responsibility_row :: "nat \<Rightarrow> model \<Rightarrow> real \<Rightarrow> jsnum list" where
  "responsibility_row k m x =
     (let resp = map (\<lambda>j. nth_js (weights m) j *
                       gaussianPDF (Fin x) (nth_js (means m) j) (Math_sqrt (nth_js (variances m) j)))
                  [0..<k];
          sum = foldl (+) (Fin 0) resp
      in map (\<lambda>r. r / (sum + Fin tiny)) resp)"

definition e_step :: "real list \<Rightarrow> nat \<Rightarrow> model \<Rightarrow> jsnum list list" where
  "e_step data k m = map (responsibility_row k m) data"

text \<open>
  The M-step for component \<open>j\<close>: the weight, then the mean, then the variance around the
  mean just written.
\<close>

definition m_step_component :: "real list \<Rightarrow> jsnum list list \<Rightarrow> model \<Rightarrow> nat \<Rightarrow> model" where
  "m_step_component data responsibilities m j =
     (let n = length data;
          nk = foldl (\<lambda>sum r. sum + nth_js r j) (Fin 0) responsibilities;
          weights' = assign_js (weights m) j (nk / Fin (real n));
          meanSum = foldl (\<lambda>s i. s + nth_js (responsibilities ! i) j * Fin (data ! i))
                      (Fin 0) [0..<n];
          means' = assign_js (means m) j (meanSum / nk);
          varSum = foldl (\<lambda>s i. (let diff = Fin (data ! i) - nth_js means' j
                                  in s + nth_js (responsibilities ! i) j * diff * diff))
                     (Fin 0) [0..<n];
          variances' = assign_js (variances m) j (varSum / nk)
      in m\<lparr>means := means', variances := variances', weights := weights'\<rparr>)"

text \<open>
  \<open>responsibilities[i][j]\<close> raises a \<open>TypeError\<close> when row \<open>i\<close> does not exist; the loops
  read the rows \<open>0..n-1\<close> as soon as there is one component.
\<close>

definition m_step :: "real list \<Rightarrow> nat \<Rightarrow> jsnum list list \<Rightarrow> model \<Rightarrow> js_error + model" where
  "m_step data k responsibilities m =
     (if 0 < k \<and> length responsibilities < length data then Inl TypeError
      else Inr (foldl (m_step_component data responsibilities) m [0..<k]))"

text \<open>
  The loop \<open>for (iter = 0; iter < maxIter; iter++)\<close>, by the number of iterations left; it
  stops early when the log-likelihood moved by less than the tolerance.
\<close>

definition tolerance :: real where
  "tolerance = 1 / 1000"

fun em_loop :: "nat \<Rightarrow> real list \<Rightarrow> nat \<Rightarrow> model \<Rightarrow> jsnum \<Rightarrow> js_error + model" where
  "em_loop 0 data k m prevLogLikelihood = Inr m"
| "em_loop (Suc left) data k m prevLogLikelihood =
     (case m_step data k (e_step data k m) m of
        Inl e \<Rightarrow> Inl e
      | Inr m' \<Rightarrow>
          (let logLikelihood = calculateLogLikelihood data (means m') (variances m') (weights m')
           in if js_lt (Math_abs (logLikelihood - prevLogLikelihood)) (Fin tolerance) then Inr m'
              else em_loop left data k m' logLikelihood))"

definition maxIter :: nat where
  "maxIter = 100"

definition initial_model :: "real list \<Rightarrow> nat \<Rightarrow> model" where
  "initial_model data k =
     \<lparr>nComponents = k, means = initializeMeans data k, variances = replicate k (Fin 1),
      weights = replicate k (Fin (1 / real k)), isSimple = False, bic = None,
      passesWeightConstraint = None\<rparr>"

definition simpleGMM :: "real list \<Rightarrow> nat \<Rightarrow> js_error + model" where
  "simpleGMM data k = em_loop maxIter data k (initial_model data k) NInf"

subsection \<open>fitGMM: the model selector\<close>

text \<open>
  \<open>fitGMM\<close> below is the value the function stores in \<open>config.fittedModel\<close> for the
  validated data (\<open>bestModel\<close>), or the exception its \<open>try\<close> block catches; the timer
  and the plotting calls around it are not modelled. The body of the loop over
  \<open>k = 1, 2, 3\<close> is \<open>score_model\<close> applied to the fit, the selection after the loop is
  \<open>select_best\<close>; \<open>plotTimeSeries\<close> repeats both on each prefix of the data.
\<close>

definition score_model :: "real list \<Rightarrow> model \<Rightarrow> model" where
  "score_model data m =
     (let b = calculateBIC data m;
          maxWeight = Math_max (weights m);
          passes = js_ge maxWeight (Fin (1 / 2))
      in m\<lparr>bic := Some b, passesWeightConstraint := Some passes\<rparr>)"

fun fit_candidates :: "real list \<Rightarrow> nat list \<Rightarrow> js_error + model list" where
  "fit_candidates data [] = Inr []"
| "fit_candidates data (k # ks) =
     (case simpleGMM data k of
        Inl e \<Rightarrow> Inl e
      | Inr m \<Rightarrow>
          (case fit_candidates data ks of
             Inl e \<Rightarrow> Inl e
           | Inr ms \<Rightarrow> Inr (score_model data m # ms)))"

text \<open>A missing \<open>bic\<close> property would read as \<open>undefined\<close> and compare as \<open>NaN\<close>.\<close>

definition bic_num :: "model \<Rightarrow> jsnum" where
  "bic_num m = (case bic m of None \<Rightarrow> NaN | Some b \<Rightarrow> b)"

definition better :: "model \<Rightarrow> model \<Rightarrow> model" where
  "better best m = (if js_lt (bic_num m) (bic_num best) then m else best)"

definition select_best :: "model list \<Rightarrow> js_error + model" where
  "select_best models =
     (let validModels = filter (\<lambda>m. passesWeightConstraint m = Some True) models
      in if 0 < length validModels then reduce_js better validModels else Inr (models ! 0))"

definition fitGMM :: "real list \<Rightarrow> js_error + model" where
  "fitGMM data =
     (if length data < 5 then Inr (simpleMeanStd data)
      else (case fit_candidates data [1, 2, 3] of
              Inl e \<Rightarrow> Inl e
            | Inr models \<Rightarrow> select_best models))"

section \<open>plotTimeSeries: the cumulative fit\<close>

text \<open>
  The three arrays the loop of \<open>plotTimeSeries\<close> fills, one entry per index of the data;
  \<open>None\<close> is \<open>null\<close>.
\<close>

record ci_bands =
  upperCI :: "jsnum option list"
  lowerCI :: "jsnum option list"
  meanLine :: "jsnum option list"

definition push_null :: "ci_bands \<Rightarrow> ci_bands" where
  "push_null b =
     b\<lparr>upperCI := upperCI b @ [None], lowerCI := lowerCI b @ [None],
       meanLine := meanLine b @ [None]\<rparr>"

text \<open>Up to 4 points: the mean and the variance of the points themselves.\<close>

definition plain_mean_variance :: "real list \<Rightarrow> jsnum \<times> jsnum" where
  "plain_mean_variance cumulativeData =
     (let mean = foldl (\<lambda>sum v. sum + Fin v) (Fin 0) cumulativeData /
                   Fin (real (length cumulativeData));
          sumSquares = foldl (\<lambda>sum v. sum + Math_pow2 (Fin v - mean)) (Fin 0) cumulativeData;
          variance = sumSquares / Fin (real (length cumulativeData) - 1)
      in (mean, variance))"

text \<open>From 5 points on: the dominant component of the selected model.\<close>

definition dominant_mean_variance :: "model \<Rightarrow> jsnum \<times> jsnum" where
  "dominant_mean_variance cumulativeModel =
     (let dominantIdx = indexOf (weights cumulativeModel) (Math_max (weights cumulativeModel))
      in (nth_int (means cumulativeModel) dominantIdx,
          nth_int (variances cumulativeModel) dominantIdx))"

definition cumulative_estimate :: "real list \<Rightarrow> nat \<Rightarrow> js_error + jsnum \<times> jsnum" where
  "cumulative_estimate data i =
     (let cumulativeData = take (i + 1) data
      in if length cumulativeData \<le> 4 then Inr (plain_mean_variance cumulativeData)
         else (case fit_candidates cumulativeData [1, 2, 3] of
                 Inl e \<Rightarrow> Inl e
               | Inr models \<Rightarrow>
                   (case select_best models of
                      Inl e \<Rightarrow> Inl e
                    | Inr cumulativeModel \<Rightarrow> Inr (dominant_mean_variance cumulativeModel))))"

definition time_series_step :: "real list \<Rightarrow> ci_bands \<Rightarrow> nat \<Rightarrow> js_error + ci_bands" where
  "time_series_step data b i =
     (if i < 2 then Inr (push_null b)
      else (case cumulative_estimate data i of
              Inl e \<Rightarrow> Inl e
            | Inr (mean, variance) \<Rightarrow>
                if \<not> isNaN variance
                then (let stdDev = Math_sqrt variance
                      in Inr (b\<lparr>upperCI := upperCI b @ [Some (mean + Fin (196 / 100) * stdDev)],
                               lowerCI := lowerCI b @ [Some (mean - Fin (196 / 100) * stdDev)],
                               meanLine := meanLine b @ [Some mean]\<rparr>))
                else Inr (push_null b)))"

fun time_series_loop :: "real list \<Rightarrow> nat list \<Rightarrow> ci_bands \<Rightarrow> js_error + ci_bands" where
  "time_series_loop data [] b = Inr b"
| "time_series_loop data (i # is) b =
     (case time_series_step data b i of
        Inl e \<Rightarrow> Inl e
      | Inr b' \<Rightarrow> time_series_loop data is b')"

definition plotTimeSeries_bands :: "real list \<Rightarrow> js_error + ci_bands" where
  "plotTimeSeries_bands data =
     time_series_loop data [0..<length data] \<lparr>upperCI = [], lowerCI = [], meanLine = []\<rparr>"

section \<open>Notions for the properties\<close>

subsection \<open>Properties of models\<close>

text \<open>The three arrays of a model have one entry per component.\<close>

definition shape_ok :: "model \<Rightarrow> bool" where
  "shape_ok m \<longleftrightarrow>
     length (means m) = nComponents m \<and> length (variances m) = nComponents m \<and>
     length (weights m) = nComponents m"

subsection \<open>Seeding positions\<close>

text \<open>The indices \<open>initializeMeans\<close> reads in the sorted data of length \<open>n\<close>.\<close>

definition seed_positions :: "nat \<Rightarrow> nat \<Rightarrow> nat list" where
  "seed_positions n k =
     (if k = 1 then [n div 2]
      else if k = 2 then [n div 3, 2 * n div 3]
      else map (\<lambda>i. (i + 1) * n div (k + 1)) [0..<k])"

text \<open>
  The positions as the specification words them: the floor of the real quotient
  \<open>(j+1)*n/(k+1)\<close> for the \<open>j\<close>-th of \<open>k\<close> means, the median position \<open>floor(n/2)\<close> for one
  mean, \<open>floor(n/3)\<close> and \<open>floor(2n/3)\<close> for two.
\<close>

definition order_statistic :: "nat \<Rightarrow> nat \<Rightarrow> nat \<Rightarrow> nat" where
  "order_statistic n k j = nat \<lfloor>real ((j + 1) * n) / real (k + 1)\<rfloor>"

definition spec_seed_positions :: "nat \<Rightarrow> nat \<Rightarrow> nat list" where
  "spec_seed_positions n k =
     (if k = 1 then [nat \<lfloor>real n / 2\<rfloor>]
      else if k = 2 then [nat \<lfloor>real n / 3\<rfloor>, nat \<lfloor>2 * real n / 3\<rfloor>]
      else map (order_statistic n k) [0..<k])"

subsection \<open>Sample statistics\<close>

text \<open>The plain sample mean and the Bessel-corrected sample variance, over the reals.\<close>

definition sample_mean :: "real list \<Rightarrow> real" where
  "sample_mean xs = sum_list xs / real (length xs)"

definition sample_variance :: "real list \<Rightarrow> real" where
  "sample_variance xs =
     sum_list (map (\<lambda>x. (x - sample_mean xs)\<^sup>2) xs) / (real (length xs) - 1)"

subsection \<open>The fit over the reals\<close>

text \<open>
  The values the EM iteration computes as long as every number stays finite: the normal
  density, a row of responsibilities, and the parameters the M-step derives from a
  matrix of responsibilities \<open>R\<close> (one row per sample).
\<close>

definition pdf :: "real \<Rightarrow> real \<Rightarrow> real \<Rightarrow> real" where
  "pdf x m v = 1 / (sqrt v * sqrt (2 * pi)) * exp (- ((x - m)\<^sup>2) / (2 * (sqrt v)\<^sup>2))"

definition density :: "real list \<Rightarrow> real list \<Rightarrow> real list \<Rightarrow> real \<Rightarrow> real" where
  "density ms vs ws x = sum_list (map (\<lambda>j. ws ! j * pdf x (ms ! j) (vs ! j)) [0..<length ms])"

definition real_row :: "real list \<Rightarrow> real list \<Rightarrow> real list \<Rightarrow> real \<Rightarrow> real list" where
  "real_row ms vs ws x =
     map (\<lambda>j. ws ! j * pdf x (ms ! j) (vs ! j) / (density ms vs ws x + tiny)) [0..<length ms]"

definition real_nk :: "real list list \<Rightarrow> nat \<Rightarrow> real" where
  "real_nk R j = sum_list (map (\<lambda>r. r ! j) R)"

definition real_mean :: "real list \<Rightarrow> real list list \<Rightarrow> nat \<Rightarrow> real" where
  "real_mean data R j =
     sum_list (map (\<lambda>i. R ! i ! j * data ! i) [0..<length data]) / real_nk R j"

definition real_var :: "real list \<Rightarrow> real list list \<Rightarrow> nat \<Rightarrow> real" where
  "real_var data R j =
     sum_list (map (\<lambda>i. R ! i ! j * (data ! i - real_mean data R j) * (data ! i - real_mean data R j))
       [0..<length data]) / real_nk R j"

definition real_weight :: "real list \<Rightarrow> real list list \<Rightarrow> nat \<Rightarrow> real" where
  "real_weight data R j = real_nk R j / real (length data)"

text \<open>A matrix of \<open>k\<close> columns with positive entries.\<close>

definition positive_rows :: "nat \<Rightarrow> real list list \<Rightarrow> bool" where
  "positive_rows k R \<longleftrightarrow> (\<forall>r \<in> set R. length r = k \<and> (\<forall>x \<in> set r. 0 < x))"

text \<open>A dataset whose samples are all the same value.\<close>

definition constant_data :: "real list \<Rightarrow> bool" where
  "constant_data data = list_all (\<lambda>x. x = hd data) data"

subsection \<open>Finite and degenerate models\<close>

fun is_fin :: "jsnum \<Rightarrow> bool" where
  "is_fin (Fin r) = True"
| "is_fin x = False"

fun is_pos :: "jsnum \<Rightarrow> bool" where
  "is_pos (Fin r) = (0 < r)"
| "is_pos x = False"

fun the_real :: "jsnum \<Rightarrow> real" where
  "the_real (Fin r) = r"
| "the_real x = 0"

text \<open>
  A model of \<open>k\<close> components whose means are finite and whose variances and weights are
  finite and positive.
\<close>

definition finite_model :: "nat \<Rightarrow> model \<Rightarrow> bool" where
  "finite_model k m \<longleftrightarrow>
     length (means m) = k \<and> length (variances m) = k \<and> length (weights m) = k \<and>
     list_all is_fin (means m) \<and> list_all is_pos (variances m) \<and> list_all is_pos (weights m)"

text \<open>The model whose \<open>k\<close> means, variances and weights are all \<open>NaN\<close>.\<close>

definition nan_model :: "nat \<Rightarrow> model \<Rightarrow> model" where
  "nan_model k m =
     m\<lparr>means := replicate k NaN, variances := replicate k NaN, weights := replicate k NaN\<rparr>"

text \<open>The sum of the weights, added up from the left as a test would.\<close>

definition weights_sum :: "model \<Rightarrow> jsnum" where
  "weights_sum m = foldl (+) (Fin 0) (weights m)"

text \<open>One EM iteration from a finite model, over the reals.\<close>

definition responsibilities_of :: "real list \<Rightarrow> model \<Rightarrow> real list list" where
  "responsibilities_of data m =
     map (real_row (map the_real (means m)) (map the_real (variances m))
            (map the_real (weights m))) data"

definition em_update :: "real list \<Rightarrow> nat \<Rightarrow> model \<Rightarrow> model" where
  "em_update data k m =
     m\<lparr>means := map (\<lambda>j. Fin (real_mean data (responsibilities_of data m) j)) [0..<k],
       variances := map (\<lambda>j. Fin (real_var data (responsibilities_of data m) j)) [0..<k],
       weights := map (\<lambda>j. Fin (real_weight data (responsibilities_of data m) j)) [0..<k]\<rparr>"


text \<open>Every term of the mixture density is \<open>NaN\<close> at every sample.\<close>

definition poisoned :: "real list \<Rightarrow> nat \<Rightarrow> model \<Rightarrow> bool" where
  "poisoned data k m \<longleftrightarrow>
     (\<forall>x \<in> set data. \<forall>j < k.
        nth_js (weights m) j *
          gaussianPDF (Fin x) (nth_js (means m) j) (Math_sqrt (nth_js (variances m) j)) = NaN)"

text \<open>The sum of the weights is a finite number strictly between 0 and 1.\<close>

definition sub_unit_weights :: "model \<Rightarrow> bool" where
  "sub_unit_weights m \<longleftrightarrow> is_pos (weights_sum m) \<and> js_lt (weights_sum m) (Fin 1)"

text \<open>\<open>sum(weights)\<close> is within \<open>1e-6\<close> of \<open>1.0\<close>.\<close>

definition weights_sum_near_one :: "model \<Rightarrow> bool" where
  "weights_sum_near_one m = js_ge (Fin (1 / 10 ^ 6)) (Math_abs (weights_sum m - Fin 1))"

subsection \<open>Selection by BIC\<close>




subsection \<open>The BIC as the specification words it\<close>

text \<open>
  A sum of JavaScript numbers, the log-likelihood as the sum over the samples of the
  logarithm of the mixture density plus \<open>1e-10\<close>, and the number of free parameters.
\<close>

fun js_sum :: "jsnum list \<Rightarrow> jsnum" where
  "js_sum [] = Fin 0"
| "js_sum (x # xs) = x + js_sum xs"

definition spec_logLikelihood :: "real list \<Rightarrow> model \<Rightarrow> jsnum" where
  "spec_logLikelihood data m =
     js_sum (map (\<lambda>x. Math_log
       (js_sum (map (\<lambda>j. weights m ! j *
                          gaussianPDF (Fin x) (means m ! j) (Math_sqrt (variances m ! j)))
                 [0..<nComponents m]) + Fin tiny)) data)"

definition spec_numParams :: "nat \<Rightarrow> real" where
  "spec_numParams k = real k + real k + (real k - 1)"

subsection \<open>The cumulative fit as the specification words it\<close>

text \<open>
  A point is absent or a triple (mean, lower bound, upper bound). The band around a mean
  for a variance: absent for a \<open>NaN\<close> variance, else \<open>1.96\<close> standard deviations on each
  side.
\<close>

definition band :: "jsnum \<Rightarrow> jsnum \<Rightarrow> (jsnum \<times> jsnum \<times> jsnum) option" where
  "band mean variance =
     (if variance = NaN then None
      else Some (mean, mean - Fin (196 / 100) * Math_sqrt variance,
                 mean + Fin (196 / 100) * Math_sqrt variance))"

text \<open>The component of maximum weight: the first position holding the largest weight.\<close>

definition dominant_component :: "model \<Rightarrow> nat" where
  "dominant_component m =
     (let ws = map the_real (weights m)
      in length (takeWhile (\<lambda>w. w < Max (set ws)) ws))"

definition cumulativeFit_point :: "real list \<Rightarrow> nat \<Rightarrow> (jsnum \<times> jsnum \<times> jsnum) option" where
  "cumulativeFit_point data i =
     (if i < 2 then None
      else if i \<le> 3 then
        band (Fin (sample_mean (take (i + 1) data))) (Fin (sample_variance (take (i + 1) data)))
      else (case fitGMM (take (i + 1) data) of
              Inl e \<Rightarrow> None
            | Inr m \<Rightarrow>
                band (means m ! dominant_component m) (variances m ! dominant_component m)))"

definition cumulativeFit :: "real list \<Rightarrow> (jsnum \<times> jsnum \<times> jsnum) option list" where
  "cumulativeFit data = map (cumulativeFit_point data) [0..<length data]"

text \<open>Appending a point to the three arrays.\<close>

definition push_point :: "ci_bands \<Rightarrow> (jsnum \<times> jsnum \<times> jsnum) option \<Rightarrow> ci_bands" where
  "push_point b p =
     b\<lparr>upperCI := upperCI b @ [map_option (\<lambda>(m, l, u). u) p],
       lowerCI := lowerCI b @ [map_option (\<lambda>(m, l, u). l) p],
       meanLine := meanLine b @ [map_option (\<lambda>(m, l, u). m) p]\<rparr>"

text \<open>A candidate with the given BIC and constraint flag, for examples.\<close>

definition candidate :: "nat \<Rightarrow> real \<Rightarrow> bool \<Rightarrow> model" where
  "candidate k b p =
     \<lparr>nComponents = k, means = replicate k (Fin 0), variances = replicate k (Fin 1),
      weights = replicate k (Fin (1 / real k)), isSimple = False, bic = Some (Fin b),
      passesWeightConstraint = Some p\<rparr>"

subsection \<open>A dataset with an outlier\<close>

text \<open>
  Five samples around 5 and one sample at 60, and the fit with one component on them:
  the responsibility of a sample under parameters \<open>(mu, v, w)\<close>, and the parameters
  the iteration stays within.
\<close>

definition outlier_data :: "real list" where
  "outlier_data = [4, 5, 5, 5, 6, 60]"

definition rho :: "real \<Rightarrow> real \<Rightarrow> real \<Rightarrow> real \<Rightarrow> real" where
  "rho mu v w x = w * pdf x mu v / (w * pdf x mu v + tiny)"

definition steady :: "model \<Rightarrow> bool" where
  "steady m \<longleftrightarrow>
     (\<exists>mu v w. means m = [Fin mu] \<and> variances m = [Fin v] \<and> weights m = [Fin w] \<and>
        4 \<le> mu \<and> mu \<le> 13 / 2 \<and> 1 / 4 \<le> v \<and> v \<le> 10 \<and> 1 / 2 \<le> w \<and> w \<le> 1)"

definition settled :: "model \<Rightarrow> bool" where
  "settled m \<longleftrightarrow>
     steady m \<and> (\<exists>w. weights m = [Fin w] \<and> 3 / 4 \<le> w \<and> w \<le> 5001 / 6000)"

text \<open>
  A finite non-negative number, and the sum of the weights of the fit with \<open>k\<close>
  components (\<open>NaN\<close> should the fit raise).
\<close>

fun is_nonneg :: "jsnum \<Rightarrow> bool" where
  "is_nonneg (Fin r) = (0 \<le> r)"
| "is_nonneg x = False"

definition fit_weights_sum :: "real list \<Rightarrow> nat \<Rightarrow> jsnum" where
  "fit_weights_sum data k =
     (case simpleGMM data k of Inl e \<Rightarrow> NaN | Inr m \<Rightarrow> weights_sum m)"

section \<open>Properties\<close>

subsection \<open>Shapes of the arrays\<close>

lemma length_assign_js: "i < length xs \<Longrightarrow> length (assign_js xs i v) = length xs"
  by (simp add: assign_js_def)

lemma assign_js_update: "i < length xs \<Longrightarrow> assign_js xs i v = xs[i := v]"
  by (simp add: assign_js_def)

lemma length_initializeMeans: "length (initializeMeans data k) = k"
  by (simp add: initializeMeans_def Let_def)

lemma length_e_step: "length (e_step data k m) = length data"
  by (simp add: e_step_def)

lemma shape_initial_model: "shape_ok (initial_model data k) \<and> nComponents (initial_model data k) = k"
  by (simp add: shape_ok_def initial_model_def length_initializeMeans)

lemma shape_m_step_component:
  "shape_ok m \<Longrightarrow> j < nComponents m \<Longrightarrow>
   shape_ok (m_step_component data rs m j) \<and>
   nComponents (m_step_component data rs m j) = nComponents m"
  by (simp add: shape_ok_def m_step_component_def Let_def length_assign_js)

lemma shape_m_step_fold:
  "shape_ok m \<Longrightarrow> t \<le> nComponents m \<Longrightarrow>
   shape_ok (foldl (m_step_component data rs) m [0..<t]) \<and>
   nComponents (foldl (m_step_component data rs) m [0..<t]) = nComponents m"
proof (induction t)
  case 0
  then show ?case by simp
next
  case (Suc t)
  then show ?case using shape_m_step_component by simp
qed

lemma m_step_e_step:
  "m_step data k (e_step data k m) m' =
   Inr (foldl (m_step_component data (e_step data k m)) m' [0..<k])"
  by (simp add: m_step_def length_e_step)

lemma shape_em_loop:
  "shape_ok m \<Longrightarrow> nComponents m = k \<Longrightarrow>
   \<exists>m'. em_loop left data k m prev = Inr m' \<and> shape_ok m' \<and> nComponents m' = k"
proof (induction left arbitrary: m prev)
  case 0
  then show ?case by simp
next
  case (Suc left)
  let ?m = "foldl (m_step_component data (e_step data k m)) m [0..<k]"
  have s: "shape_ok ?m \<and> nComponents ?m = k"
    using shape_m_step_fold [of m k] Suc.prems by simp
  show ?case
    using s Suc.IH [of ?m] by (simp add: m_step_e_step Let_def)
qed

lemma shape_simpleGMM:
  "\<exists>m. simpleGMM data k = Inr m \<and> shape_ok m \<and> nComponents m = k"
  unfolding simpleGMM_def using shape_em_loop shape_initial_model by blast

lemma shape_simpleMeanStd: "shape_ok (simpleMeanStd data)"
  by (simp add: shape_ok_def simpleMeanStd_def Let_def)

text \<open>
  C9. The model of the EM fit, for any dataset and any number of components \<open>k\<close>, and
  the model of the small-sample path have \<open>means\<close>, \<open>variances\<close> and \<open>weights\<close> of
  length \<open>nComponents\<close>; the EM fit always returns, with \<open>nComponents = k\<close>.
\<close>

theorem fitted_models_have_aligned_lengths:
  "(\<exists>m. simpleGMM data k = Inr m \<and> shape_ok m \<and> nComponents m = k) \<and>
   shape_ok (simpleMeanStd data) \<and> nComponents (simpleMeanStd data) = 1"
  using shape_simpleGMM shape_simpleMeanStd by (simp add: simpleMeanStd_def Let_def)

subsection \<open>Initialisation\<close>

lemma nat_floor_div: "nat \<lfloor>real a / real b\<rfloor> = a div b"
  by (simp add: floor_divide_of_nat_eq)

lemma spec_seed_positions_eq: "spec_seed_positions n k = seed_positions n k"
proof -
  have a: "nat \<lfloor>real n / 2\<rfloor> = n div 2"
    using nat_floor_div [of n 2] by simp
  have b: "nat \<lfloor>real n / 3\<rfloor> = n div 3"
    using nat_floor_div [of n 3] by simp
  have c: "nat \<lfloor>2 * real n / 3\<rfloor> = 2 * n div 3"
    using nat_floor_div [of "2 * n" 3] by simp
  have d: "order_statistic n k j = (j + 1) * n div (k + 1)" for j
    unfolding order_statistic_def by (rule nat_floor_div)
  show ?thesis
    by (simp add: spec_seed_positions_def seed_positions_def a b c d)
qed

lemma initializeMeans_positions:
  "initializeMeans data k = map (sorted_at (sort data)) (seed_positions (length data) k)"
  by (simp add: initializeMeans_def seed_positions_def Let_def)

lemma seed_position_less:
  fixes n j k :: nat
  assumes "0 < n" "j < k"
  shows "(j + 1) * n div (k + 1) < n"
proof -
  have "j + 1 < k + 1" using assms by simp
  then have "(j + 1) * n < (k + 1) * n" using assms(1) by simp
  then have "(j + 1) * n < n * (k + 1)" by (simp only: mult.commute [of n])
  then show ?thesis
    by (simp add: less_mult_imp_div_less)
qed

lemma seed_positions_in_range:
  assumes "0 < n" "0 < k"
  shows "\<forall>i \<in> set (seed_positions n k). i < n"
proof -
  have "n div 2 < n" "n div 3 < n" "2 * n div 3 < n"
    using assms by simp_all
  then show ?thesis
    using seed_position_less [OF assms(1)] by (auto simp: seed_positions_def)
qed

lemma initializeMeans_nth:
  assumes "0 < length data" "0 < k"
  shows "initializeMeans data k =
         map (\<lambda>i. Fin (sort data ! i)) (seed_positions (length data) k)"
  unfolding initializeMeans_positions
  using seed_positions_in_range [OF assms] by (simp add: sorted_at_def)

text \<open>
  C10. For a dataset of length \<open>n \<ge> 1\<close> and \<open>k \<ge> 1\<close> components, every index
  \<open>initializeMeans\<close> reads is below \<open>n\<close>: no read is out of range, each seed is the element
  of the sorted data at its position, and each seed is an element of the dataset.
\<close>

theorem initializeMeans_reads_in_range:
  assumes "1 \<le> length data" "1 \<le> k"
  shows "(\<forall>i \<in> set (seed_positions (length data) k). i < length data) \<and>
         initializeMeans data k =
           map (\<lambda>i. Fin (sort data ! i)) (seed_positions (length data) k) \<and>
         (\<forall>m \<in> set (initializeMeans data k). \<exists>x \<in> set data. m = Fin x)"
proof -
  have n: "0 < length data" and k: "0 < k" using assms by auto
  have r: "\<forall>i \<in> set (seed_positions (length data) k). i < length data"
    using seed_positions_in_range [OF n k] .
  have e: "initializeMeans data k =
           map (\<lambda>i. Fin (sort data ! i)) (seed_positions (length data) k)"
    using initializeMeans_nth [OF n k] .
  have "\<exists>x \<in> set data. m = Fin x" if "m \<in> set (initializeMeans data k)" for m
  proof -
    from that e obtain i where i: "i \<in> set (seed_positions (length data) k)"
      and m: "m = Fin (sort data ! i)" by auto
    from i r have "i < length (sort data)" by simp
    then have "sort data ! i \<in> set (sort data)" by (rule nth_mem)
    then show ?thesis using m by auto
  qed
  with r e show ?thesis by blast
qed

theorem initializeMeans_reads_in_range_witness:
  "1 \<le> length [3, 1, 2 :: real] \<and> (1::nat) \<le> 2 \<and>
   seed_positions 3 2 = [1, 2] \<and>
   initializeMeans [3, 1, 2] 2 = [Fin 2, Fin 3]"
  using initializeMeans_reads_in_range [of "[3, 1, 2]" 2]
  by (simp add: seed_positions_def)

text \<open>
  C7. For a dataset of length \<open>n \<ge> 1\<close> and \<open>k \<ge> 1\<close>, the EM fit starts from the data
  sorted in ascending order, with the means at the positions of the specification
  (\<open>floor(n/2)\<close>; \<open>floor(n/3)\<close> and \<open>floor(2n/3)\<close>; \<open>floor((j+1)*n/(k+1))\<close> for \<open>j = 0..k-1\<close>),
  every variance \<open>1.0\<close> and every weight \<open>1/k\<close>.
\<close>

theorem initial_model_seeds:
  assumes "1 \<le> length data" "1 \<le> k"
  shows "sorted (sort data) \<and> mset (sort data) = mset data \<and>
         means (initial_model data k) =
           map (\<lambda>i. Fin (sort data ! i)) (spec_seed_positions (length data) k) \<and>
         variances (initial_model data k) = replicate k (Fin 1) \<and>
         weights (initial_model data k) = replicate k (Fin (1 / real k)) \<and>
         simpleGMM data k = em_loop 100 data k (initial_model data k) NInf"
proof -
  have n: "0 < length data" and k: "0 < k" using assms by auto
  show ?thesis
    using initializeMeans_nth [OF n k]
    by (simp add: initial_model_def spec_seed_positions_eq simpleGMM_def maxIter_def)
qed

theorem initial_model_seeds_witness:
  "1 \<le> length [3, 1, 2 :: real] \<and> (1::nat) \<le> 1 \<and>
   means (initial_model [3, 1, 2] 1) = [Fin 2] \<and>
   variances (initial_model [3, 1, 2] 1) = [Fin 1] \<and>
   weights (initial_model [3, 1, 2] 1) = [Fin 1]"
  using initial_model_seeds [of "[3, 1, 2]" 1]
  by (simp add: spec_seed_positions_eq seed_positions_def)

subsection \<open>The small-sample path\<close>

lemma Fin_minus [simp]: "Fin a - Fin b = Fin (a - b)"
  by (simp add: minus_jsnum_def)

lemma Math_pow2_Fin [simp]: "Math_pow2 (Fin a) = Fin (a\<^sup>2)"
  by (simp add: Math_pow2_def power2_eq_square)

lemma Fin_divide [simp]: "b \<noteq> 0 \<Longrightarrow> Fin a / Fin b = Fin (a / b)"
  by simp

lemma foldl_plus_Fin:
  "foldl (\<lambda>s v. s + Fin (f v)) (Fin a) xs = Fin (a + sum_list (map f xs))"
  by (induction xs arbitrary: a) (simp_all add: add.assoc)

lemma simpleMeanStd_mean:
  assumes "1 \<le> length data"
  shows "means (simpleMeanStd data) = [Fin (sample_mean data)]"
proof -
  have "real (length data) \<noteq> 0" using assms by auto
  then show ?thesis
    using foldl_plus_Fin [of "\<lambda>v. v" 0 data]
    by (simp add: simpleMeanStd_def Let_def sample_mean_def)
qed

lemma simpleMeanStd_variance:
  assumes "3 \<le> length data"
  shows "variances (simpleMeanStd data) = [Fin (sample_variance data)]"
proof -
  have n: "real (length data) \<noteq> 0" "real (length data) - 1 \<noteq> 0" using assms by auto
  have m: "foldl (\<lambda>sum v. sum + Fin v) (Fin 0) data / Fin (real (length data)) =
           Fin (sample_mean data)"
    using foldl_plus_Fin [of "\<lambda>v. v" 0 data] n by (simp add: sample_mean_def)
  show ?thesis
    using foldl_plus_Fin [of "\<lambda>v. (v - sample_mean data)\<^sup>2" 0 data] n assms
    by (simp add: simpleMeanStd_def Let_def m sample_variance_def)
qed

text \<open>
  C8. With fewer than 5 samples \<open>fitGMM\<close> runs no EM: it returns the one-component
  model of \<open>simpleMeanStd\<close>, whose mean is the sample mean (\<open>0/0 = NaN\<close> for the empty
  dataset, which the input validation excludes), whose variance is the Bessel-corrected
  sample variance from 3 samples on and \<open>NaN\<close> below, whose weights are \<open>[1.0]\<close> and
  whose \<open>isSimple\<close> flag is set.
\<close>

theorem fitGMM_small_sample:
  assumes "length data < 5"
  shows "fitGMM data =
           Inr \<lparr>nComponents = 1,
                means = [if data = [] then NaN else Fin (sample_mean data)],
                variances = [if 3 \<le> length data then Fin (sample_variance data) else NaN],
                weights = [Fin 1], isSimple = True, bic = None,
                passesWeightConstraint = None\<rparr>"
proof -
  have f: "fitGMM data = Inr (simpleMeanStd data)"
    using assms by (simp add: fitGMM_def)
  have v: "variances (simpleMeanStd data) =
           [if 3 \<le> length data then Fin (sample_variance data) else NaN]"
  proof (cases "3 \<le> length data")
    case True
    then show ?thesis using simpleMeanStd_variance by simp
  next
    case False
    then show ?thesis by (simp add: simpleMeanStd_def Let_def)
  qed
  have r: "nComponents (simpleMeanStd data) = 1 \<and> weights (simpleMeanStd data) = [Fin 1] \<and>
           isSimple (simpleMeanStd data) \<and> bic (simpleMeanStd data) = None \<and>
           passesWeightConstraint (simpleMeanStd data) = None"
    by (simp add: simpleMeanStd_def Let_def)
  have m: "means (simpleMeanStd data) = [if data = [] then NaN else Fin (sample_mean data)]"
  proof (cases "data = []")
    case True
    then show ?thesis by (simp add: simpleMeanStd_def)
  next
    case False
    then have "1 \<le> length data" by (cases data) simp_all
    then show ?thesis using simpleMeanStd_mean False by simp
  qed
  show ?thesis
    unfolding f using m v r by simp
qed

theorem fitGMM_small_sample_witness:
  "length [4, 6 :: real] < 5 \<and>
   fitGMM [4, 6] =
     Inr \<lparr>nComponents = 1, means = [Fin 5], variances = [NaN], weights = [Fin 1],
          isSimple = True, bic = None, passesWeightConstraint = None\<rparr>"
  using fitGMM_small_sample [of "[4, 6]"] by (simp add: sample_mean_def)

subsection \<open>Arithmetic on finite numbers and on NaN\<close>

lemma NaN_plus [simp]: "a + NaN = NaN"
  by (cases a) simp_all

lemma NaN_times [simp]: "a * NaN = NaN"
  by (cases a) simp_all

lemma NaN_divide [simp]: "a / NaN = NaN"
  by (cases a) simp_all

lemma tiny_pos: "0 < tiny"
  by (simp add: tiny_def)

lemma pdf_pos: "0 < v \<Longrightarrow> 0 < pdf x m v"
  by (simp add: pdf_def)

lemma gaussianPDF_Fin:
  assumes "0 < v"
  shows "gaussianPDF (Fin x) (Fin m) (Math_sqrt (Fin v)) = Fin (pdf x m v)"
proof -
  have s: "sqrt v \<noteq> 0" "\<not> v < 0" using assms by simp_all
  have c: "sqrt v * sqrt (2 * pi) \<noteq> 0" using s by simp
  have d: "2 * (sqrt v)\<^sup>2 \<noteq> 0" using s by simp
  show ?thesis
    unfolding gaussianPDF_def Let_def pdf_def using s c d by simp
qed

lemma gaussianPDF_zero_variance:
  "gaussianPDF (Fin c) (Fin c) (Math_sqrt (Fin 0)) = NaN"
  by (simp add: gaussianPDF_def Let_def)

lemma gaussianPDF_NaN_mean: "gaussianPDF x NaN s = NaN"
proof -
  have "x - NaN = NaN" by (cases x) (simp_all add: minus_jsnum_def)
  then show ?thesis
    by (simp add: gaussianPDF_def Let_def Math_pow2_def)
qed

lemma foldl_NaN:
  assumes "xs \<noteq> []" "\<And>s x. x \<in> set xs \<Longrightarrow> f s x = NaN"
  shows "foldl f a xs = NaN"
  using assms
proof (induction xs arbitrary: a rule: rev_induct)
  case Nil
  then show ?case by simp
next
  case (snoc x xs)
  then show ?case by simp
qed

subsection \<open>The E-step on a finite model\<close>

lemma nth_js_map_Fin: "j < length xs \<Longrightarrow> nth_js (map Fin xs) j = Fin (xs ! j)"
  by (simp add: nth_js_def)

lemma foldl_plus_map_Fin: "foldl (+) (Fin a) (map (\<lambda>j. Fin (f j)) js) = Fin (a + sum_list (map f js))"
  using foldl_plus_Fin [of f a js] by (simp add: foldl_map)

lemma gaussianPDF_Fin_sqrt:
  "0 < v \<Longrightarrow> gaussianPDF (Fin x) (Fin m) (Fin (sqrt v)) = Fin (pdf x m v)"
  using gaussianPDF_Fin [of v x m] by simp

lemma density_nonneg:
  assumes "length vs = length ms" "length ws = length ms"
    "\<forall>v \<in> set vs. 0 < v" "\<forall>w \<in> set ws. 0 < w"
  shows "0 \<le> density ms vs ws x"
  unfolding density_def
proof (rule sum_list_nonneg)
  fix y
  assume "y \<in> set (map (\<lambda>j. ws ! j * pdf x (ms ! j) (vs ! j)) [0..<length ms])"
  then obtain j where j: "j < length ms" and y: "y = ws ! j * pdf x (ms ! j) (vs ! j)"
    by auto
  have "0 < ws ! j" "0 < vs ! j" using assms j by simp_all
  then show "0 \<le> y" using y pdf_pos [of "vs ! j" x "ms ! j"] by simp
qed

lemma real_row_pos:
  assumes "length vs = length ms" "length ws = length ms"
    "\<forall>v \<in> set vs. 0 < v" "\<forall>w \<in> set ws. 0 < w"
  shows "length (real_row ms vs ws x) = length ms \<and> (\<forall>r \<in> set (real_row ms vs ws x). 0 < r)"
proof -
  have d: "0 < density ms vs ws x + tiny"
    using density_nonneg [OF assms] tiny_pos by (simp add: add_nonneg_pos)
  have "0 < ws ! j * pdf x (ms ! j) (vs ! j) / (density ms vs ws x + tiny)" if "j < length ms" for j
  proof -
    have "0 < ws ! j" "0 < vs ! j" using assms that by simp_all
    then show ?thesis using d pdf_pos [of "vs ! j" x "ms ! j"] by simp
  qed
  then show ?thesis by (auto simp: real_row_def)
qed

lemma responsibility_row_Fin:
  assumes m: "means m = map Fin ms" "variances m = map Fin vs" "weights m = map Fin ws"
    and l: "length vs = length ms" "length ws = length ms"
    and p: "\<forall>v \<in> set vs. 0 < v" "\<forall>w \<in> set ws. 0 < w"
  shows "responsibility_row (length ms) m x = map Fin (real_row ms vs ws x)"
proof -
  let ?p = "\<lambda>j. ws ! j * pdf x (ms ! j) (vs ! j)"
  have a: "map (\<lambda>j. nth_js (weights m) j *
              gaussianPDF (Fin x) (nth_js (means m) j) (Math_sqrt (nth_js (variances m) j)))
            [0..<length ms] = map (\<lambda>j. Fin (?p j)) [0..<length ms]"
  proof (rule map_cong [OF refl])
    fix j
    assume "j \<in> set [0..<length ms]"
    then have j: "j < length ms" by simp
    then have "0 < vs ! j" using l p by simp
    then show "nth_js (weights m) j *
              gaussianPDF (Fin x) (nth_js (means m) j) (Math_sqrt (nth_js (variances m) j)) =
              Fin (?p j)"
      using j l by (simp add: m nth_js_map_Fin gaussianPDF_Fin_sqrt)
  qed
  have s: "foldl (+) (Fin 0) (map (\<lambda>j. Fin (?p j)) [0..<length ms]) = Fin (density ms vs ws x)"
    by (simp add: foldl_plus_map_Fin density_def)
  have d: "density ms vs ws x + tiny \<noteq> 0"
    using density_nonneg [OF l p, of x] tiny_pos by linarith
  show ?thesis
    unfolding responsibility_row_def Let_def a s
    using d by (simp add: real_row_def)
qed

lemma e_step_Fin:
  assumes m: "means m = map Fin ms" "variances m = map Fin vs" "weights m = map Fin ws"
    and l: "length vs = length ms" "length ws = length ms"
    and p: "\<forall>v \<in> set vs. 0 < v" "\<forall>w \<in> set ws. 0 < w"
  shows "e_step data (length ms) m = map (\<lambda>x. map Fin (real_row ms vs ws x)) data"
  unfolding e_step_def using responsibility_row_Fin [OF m l p] by simp

subsection \<open>The M-step on finite responsibilities\<close>

lemma sum_list_pos_real:
  fixes xs :: "real list"
  assumes "xs \<noteq> []" "\<forall>x \<in> set xs. 0 < x"
  shows "0 < sum_list xs"
  using assms
proof (induction xs)
  case Nil
  then show ?case by simp
next
  case (Cons x xs)
  then show ?case
    by (cases "xs = []") (auto intro: add_pos_pos)
qed

lemma positive_rows_nth:
  assumes "positive_rows k R" "i < length R" "j < k"
  shows "length (R ! i) = k \<and> 0 < R ! i ! j"
proof -
  have r: "R ! i \<in> set R" using assms(2) by simp
  then have l: "length (R ! i) = k" using assms(1) by (simp add: positive_rows_def)
  then have "R ! i ! j \<in> set (R ! i)" using assms(3) by simp
  then show ?thesis using r l assms(1) by (auto simp: positive_rows_def)
qed

lemma real_nk_pos:
  assumes "positive_rows k R" "R \<noteq> []" "j < k"
  shows "0 < real_nk R j"
  unfolding real_nk_def
proof (rule sum_list_pos_real)
  show "map (\<lambda>r. r ! j) R \<noteq> []" using assms by simp
  show "\<forall>x \<in> set (map (\<lambda>r. r ! j) R). 0 < x"
    using assms by (auto simp: positive_rows_def)
qed

lemma foldl_Fin_cong:
  assumes "\<And>x. x \<in> set xs \<Longrightarrow> g x = Fin (f x)"
  shows "foldl (\<lambda>s x. s + g x) (Fin a) xs = Fin (a + sum_list (map f xs))"
proof -
  have "foldl (\<lambda>s x. s + g x) (Fin a) xs = foldl (\<lambda>s x. s + Fin (f x)) (Fin a) xs"
    by (rule foldl_cong) (simp_all add: assms)
  then show ?thesis by (simp add: foldl_plus_Fin)
qed

lemma js_nk_Fin:
  assumes "positive_rows k R" "j < k"
  shows "foldl (\<lambda>sum r. sum + nth_js r j) (Fin 0) (map (map Fin) R) = Fin (real_nk R j)"
proof -
  have "foldl (\<lambda>sum r. sum + nth_js (map Fin r) j) (Fin 0) R = Fin (0 + sum_list (map (\<lambda>r. r ! j) R))"
  proof (rule foldl_Fin_cong)
    fix r assume "r \<in> set R"
    then have "j < length r" using assms by (simp add: positive_rows_def)
    then show "nth_js (map Fin r) j = Fin (r ! j)" by (rule nth_js_map_Fin)
  qed
  then show ?thesis by (simp add: foldl_map real_nk_def)
qed

lemma js_resp_entry:
  assumes "positive_rows k R" "i < length R" "j < k"
  shows "nth_js (map (map Fin) R ! i) j = Fin (R ! i ! j)"
  using assms positive_rows_nth [OF assms] by (simp add: nth_js_map_Fin)

lemma m_step_component_Fin:
  assumes R: "positive_rows k R"
    and n: "length R = length data" "0 < length data"
    and j: "j < k"
    and s: "length (means m) = k" "length (variances m) = k" "length (weights m) = k"
  shows "m_step_component data (map (map Fin) R) m j =
         m\<lparr>means := (means m)[j := Fin (real_mean data R j)],
           variances := (variances m)[j := Fin (real_var data R j)],
           weights := (weights m)[j := Fin (real_weight data R j)]\<rparr>"
proof -
  let ?rs = "map (map Fin) R"
  have ne: "R \<noteq> []" using n by auto
  have nk: "foldl (\<lambda>sum r. sum + nth_js r j) (Fin 0) ?rs = Fin (real_nk R j)"
    using js_nk_Fin [OF R j] .
  have nk0: "real_nk R j \<noteq> 0" using real_nk_pos [OF R ne j] by simp
  have n0: "real (length data) \<noteq> 0" using n by simp
  have ms: "foldl (\<lambda>s i. s + nth_js (?rs ! i) j * Fin (data ! i)) (Fin 0) [0..<length data] =
            Fin (0 + sum_list (map (\<lambda>i. R ! i ! j * data ! i) [0..<length data]))"
  proof (rule foldl_Fin_cong)
    fix i assume "i \<in> set [0..<length data]"
    then have "i < length R" using n by simp
    then show "nth_js (?rs ! i) j * Fin (data ! i) = Fin (R ! i ! j * data ! i)"
      using js_resp_entry [OF R _ j] by simp
  qed
  have mean: "foldl (\<lambda>s i. s + nth_js (?rs ! i) j * Fin (data ! i)) (Fin 0) [0..<length data] /
              Fin (real_nk R j) = Fin (real_mean data R j)"
    unfolding ms using nk0 by (simp add: real_mean_def)
  have rd: "nth_js ((means m)[j := Fin (real_mean data R j)]) j = Fin (real_mean data R j)"
    using j s by (simp add: nth_js_def)
  have vs: "foldl (\<lambda>s i. s + nth_js (?rs ! i) j * (Fin (data ! i) - Fin (real_mean data R j)) *
                           (Fin (data ! i) - Fin (real_mean data R j))) (Fin 0) [0..<length data] =
            Fin (0 + sum_list (map (\<lambda>i. R ! i ! j * (data ! i - real_mean data R j) *
                                     (data ! i - real_mean data R j)) [0..<length data]))"
  proof (rule foldl_Fin_cong)
    fix i assume "i \<in> set [0..<length data]"
    then have "i < length R" using n by simp
    then show "nth_js (?rs ! i) j * (Fin (data ! i) - Fin (real_mean data R j)) *
               (Fin (data ! i) - Fin (real_mean data R j)) =
               Fin (R ! i ! j * (data ! i - real_mean data R j) * (data ! i - real_mean data R j))"
      using js_resp_entry [OF R _ j] by simp
  qed
  have var: "foldl (\<lambda>s i. s + nth_js (?rs ! i) j * (Fin (data ! i) - Fin (real_mean data R j)) *
                           (Fin (data ! i) - Fin (real_mean data R j))) (Fin 0) [0..<length data] /
             Fin (real_nk R j) = Fin (real_var data R j)"
    unfolding vs using nk0 by (simp add: real_var_def)
  have w: "Fin (real_nk R j) / Fin (real (length data)) = Fin (real_weight data R j)"
    using n0 by (simp add: real_weight_def)
  have u: "assign_js (means m) j v = (means m)[j := v]"
    "assign_js (variances m) j v = (variances m)[j := v]"
    "assign_js (weights m) j v = (weights m)[j := v]" for v
    using j s by (simp_all add: assign_js_update)
  show ?thesis
    unfolding m_step_component_def Let_def
    by (simp only: nk u mean rd var w)
qed

lemma update_after_prefix:
  assumes "t < length xs"
  shows "(map a [0..<t] @ drop t xs)[t := v] = map a [0..<t] @ v # drop (Suc t) xs"
proof -
  have "drop t xs = xs ! t # drop (Suc t) xs"
    using assms by (simp add: Cons_nth_drop_Suc)
  then show ?thesis by (simp add: list_update_append)
qed

lemma fold_component_updates:
  assumes step: "\<And>m j. j < k \<Longrightarrow> length (means m) = k \<Longrightarrow> length (variances m) = k \<Longrightarrow>
                   length (weights m) = k \<Longrightarrow>
                   f m j = m\<lparr>means := (means m)[j := a j], variances := (variances m)[j := b j],
                             weights := (weights m)[j := c j]\<rparr>"
    and s: "length (means m) = k" "length (variances m) = k" "length (weights m) = k"
    and t: "t \<le> k"
  shows "foldl f m [0..<t] =
         m\<lparr>means := map a [0..<t] @ drop t (means m),
           variances := map b [0..<t] @ drop t (variances m),
           weights := map c [0..<t] @ drop t (weights m)\<rparr>"
  using t
proof (induction t)
  case 0
  then show ?case by simp
next
  case (Suc t)
  let ?m = "m\<lparr>means := map a [0..<t] @ drop t (means m),
              variances := map b [0..<t] @ drop t (variances m),
              weights := map c [0..<t] @ drop t (weights m)\<rparr>"
  have t: "t < k" using Suc.prems by simp
  have l: "length (means ?m) = k" "length (variances ?m) = k" "length (weights ?m) = k"
    using t s by simp_all
  have "foldl f m [0..<Suc t] = f ?m t"
    using Suc.IH t by simp
  also have "\<dots> = ?m\<lparr>means := (means ?m)[t := a t], variances := (variances ?m)[t := b t],
                      weights := (weights ?m)[t := c t]\<rparr>"
    using step [OF t l] .
  also have "\<dots> = m\<lparr>means := map a [0..<Suc t] @ drop (Suc t) (means m),
                      variances := map b [0..<Suc t] @ drop (Suc t) (variances m),
                      weights := map c [0..<Suc t] @ drop (Suc t) (weights m)\<rparr>"
    using t s by (simp add: update_after_prefix)
  finally show ?case .
qed

lemma m_step_Fin:
  assumes R: "positive_rows k R"
    and n: "length R = length data" "0 < length data"
    and s: "length (means m) = k" "length (variances m) = k" "length (weights m) = k"
  shows "m_step data k (map (map Fin) R) m =
         Inr (m\<lparr>means := map (\<lambda>j. Fin (real_mean data R j)) [0..<k],
                 variances := map (\<lambda>j. Fin (real_var data R j)) [0..<k],
                 weights := map (\<lambda>j. Fin (real_weight data R j)) [0..<k]\<rparr>)"
proof -
  have "foldl (m_step_component data (map (map Fin) R)) m [0..<k] =
        m\<lparr>means := map (\<lambda>j. Fin (real_mean data R j)) [0..<k] @ drop k (means m),
          variances := map (\<lambda>j. Fin (real_var data R j)) [0..<k] @ drop k (variances m),
          weights := map (\<lambda>j. Fin (real_weight data R j)) [0..<k] @ drop k (weights m)\<rparr>"
    by (rule fold_component_updates [OF _ s order_refl])
       (rule m_step_component_Fin [OF R n])
  then show ?thesis using s n by (simp add: m_step_def)
qed

subsection \<open>Positive variances and constant data\<close>

lemma sum_list_pos_one:
  fixes f :: "'a \<Rightarrow> real"
  assumes "\<forall>x \<in> set xs. 0 \<le> f x" "y \<in> set xs" "0 < f y"
  shows "0 < sum_list (map f xs)"
proof -
  obtain as bs where xs: "xs = as @ y # bs"
    using assms(2) by (auto simp: in_set_conv_decomp)
  have a: "0 \<le> sum_list (map f as)"
    by (rule sum_list_nonneg) (use assms(1) xs in auto)
  have b: "0 \<le> sum_list (map f bs)"
    by (rule sum_list_nonneg) (use assms(1) xs in auto)
  show ?thesis using a b assms(3) by (simp add: xs)
qed

lemma real_nk_index:
  "real_nk R j = sum_list (map (\<lambda>i. R ! i ! j) [0..<length R])"
proof -
  have "map (\<lambda>i. R ! i ! j) [0..<length R] = map (\<lambda>r. r ! j) (map (\<lambda>i. R ! i) [0..<length R])"
    by simp
  also have "\<dots> = map (\<lambda>r. r ! j) R" by (simp only: map_nth)
  finally show ?thesis by (simp add: real_nk_def)
qed

lemma real_weight_pos:
  assumes "positive_rows k R" "length R = length data" "0 < length data" "j < k"
  shows "0 < real_weight data R j"
proof -
  have "R \<noteq> []" using assms by auto
  then have "0 < real_nk R j" using real_nk_pos assms by blast
  then show ?thesis using assms by (simp add: real_weight_def)
qed

lemma real_var_pos:
  assumes R: "positive_rows k R" and n: "length R = length data" and j: "j < k"
    and d: "a \<in> set data" "b \<in> set data" "a \<noteq> b"
  shows "0 < real_var data R j"
proof -
  let ?mu = "real_mean data R j"
  let ?f = "\<lambda>i. R ! i ! j * (data ! i - ?mu) * (data ! i - ?mu)"
  have ne: "R \<noteq> []" using d n by auto
  have nk: "0 < real_nk R j" using real_nk_pos [OF R ne j] .
  obtain c where c: "c \<in> set data" "c \<noteq> ?mu" using d by metis
  then obtain i where i: "i < length data" "data ! i = c"
    by (auto simp: in_set_conv_nth)
  have p: "0 < R ! i ! j" using positive_rows_nth [OF R _ j] i n by simp
  have nonneg: "\<forall>i \<in> set [0..<length data]. 0 \<le> ?f i"
  proof
    fix i' assume "i' \<in> set [0..<length data]"
    then have "0 < R ! i' ! j" using positive_rows_nth [OF R _ j] n by simp
    then show "0 \<le> ?f i'" by (simp add: mult.assoc)
  qed
  have "data ! i - ?mu \<noteq> 0" using c i by simp
  then have "0 < (data ! i - ?mu) * (data ! i - ?mu)"
    by (cases "0 < data ! i - ?mu") (simp_all add: zero_less_mult_iff not_less order_less_le)
  then have "0 < ?f i" using p by (simp add: mult.assoc)
  moreover have "i \<in> set [0..<length data]" using i by simp
  ultimately have "0 < sum_list (map ?f [0..<length data])"
    using nonneg by (rule_tac sum_list_pos_one) auto
  then show ?thesis using nk by (simp add: real_var_def)
qed

lemma constant_data_nth:
  "constant_data data \<Longrightarrow> i < length data \<Longrightarrow> data ! i = hd data"
  by (simp add: constant_data_def list_all_length)

lemma not_constant_data:
  assumes "\<not> constant_data data"
  shows "\<exists>a \<in> set data. \<exists>b \<in> set data. a \<noteq> b"
proof -
  from assms obtain x where x: "x \<in> set data" "x \<noteq> hd data"
    by (auto simp: constant_data_def list_all_iff)
  then have "data \<noteq> []" by auto
  then have "hd data \<in> set data" by simp
  with x show ?thesis by blast
qed

lemma real_mean_constant:
  assumes R: "positive_rows k R" and n: "length R = length data" "0 < length data"
    and j: "j < k" and c: "constant_data data"
  shows "real_mean data R j = hd data"
proof -
  have ne: "R \<noteq> []" using n by auto
  have nk: "real_nk R j \<noteq> 0" using real_nk_pos [OF R ne j] by simp
  have "map (\<lambda>i. R ! i ! j * data ! i) [0..<length data] =
        map (\<lambda>i. R ! i ! j * hd data) [0..<length R]"
    using constant_data_nth [OF c] n by simp
  then have "sum_list (map (\<lambda>i. R ! i ! j * data ! i) [0..<length data]) = real_nk R j * hd data"
    by (simp add: real_nk_index sum_list_mult_const)
  then show ?thesis using nk by (simp add: real_mean_def)
qed

lemma real_var_constant:
  assumes R: "positive_rows k R" and n: "length R = length data" "0 < length data"
    and j: "j < k" and c: "constant_data data"
  shows "real_var data R j = 0"
proof -
  have "map (\<lambda>i. R ! i ! j * (data ! i - real_mean data R j) * (data ! i - real_mean data R j))
          [0..<length data] = map (\<lambda>i. 0) [0..<length data]"
    using constant_data_nth [OF c] real_mean_constant [OF assms] by simp
  then have "sum_list (map (\<lambda>i. R ! i ! j * (data ! i - real_mean data R j) *
                                 (data ! i - real_mean data R j)) [0..<length data]) = 0"
    by (simp only: sum_list_0)
  then show ?thesis by (simp only: real_var_def div_0)
qed

subsection \<open>The sum of the weights after an M-step\<close>

lemma density_pos:
  assumes "length vs = length ms" "length ws = length ms" "0 < length ms"
    "\<forall>v \<in> set vs. 0 < v" "\<forall>w \<in> set ws. 0 < w"
  shows "0 < density ms vs ws x"
  unfolding density_def
proof (rule sum_list_pos_real)
  show "map (\<lambda>j. ws ! j * pdf x (ms ! j) (vs ! j)) [0..<length ms] \<noteq> []"
    using assms(3) by simp
  show "\<forall>y \<in> set (map (\<lambda>j. ws ! j * pdf x (ms ! j) (vs ! j)) [0..<length ms]). 0 < y"
  proof
    fix y
    assume "y \<in> set (map (\<lambda>j. ws ! j * pdf x (ms ! j) (vs ! j)) [0..<length ms])"
    then obtain j where j: "j < length ms" and y: "y = ws ! j * pdf x (ms ! j) (vs ! j)"
      by auto
    have "0 < ws ! j" "0 < vs ! j" using assms j by simp_all
    then show "0 < y" using y pdf_pos [of "vs ! j" x "ms ! j"] by simp
  qed
qed

lemma sum_list_real_row:
  "sum_list (real_row ms vs ws x) = density ms vs ws x / (density ms vs ws x + tiny)"
proof -
  have "sum_list (map (\<lambda>j. ws ! j * pdf x (ms ! j) (vs ! j) * inverse (density ms vs ws x + tiny))
          [0..<length ms]) =
        sum_list (map (\<lambda>j. ws ! j * pdf x (ms ! j) (vs ! j)) [0..<length ms]) *
          inverse (density ms vs ws x + tiny)"
    by (rule sum_list_mult_const)
  then show ?thesis
    by (simp add: real_row_def divide_inverse density_def)
qed

lemma sum_list_real_row_bounds:
  assumes "length vs = length ms" "length ws = length ms" "0 < length ms"
    "\<forall>v \<in> set vs. 0 < v" "\<forall>w \<in> set ws. 0 < w"
  shows "0 < sum_list (real_row ms vs ws x) \<and> sum_list (real_row ms vs ws x) < 1"
  using density_pos [OF assms, of x] tiny_pos by (simp add: sum_list_real_row)

lemma sum_real_nk:
  assumes "\<forall>r \<in> set R. length r = k"
  shows "sum_list (map (real_nk R) [0..<k]) = sum_list (map sum_list R)"
  using assms
proof (induction R)
  case Nil
  then show ?case by (simp add: real_nk_def)
next
  case (Cons r R)
  have l: "length r = k" using Cons.prems by simp
  have "map (\<lambda>j. r ! j) [0..<k] = r" using l map_nth [of r] by simp
  then have r: "sum_list (map (\<lambda>j. r ! j) [0..<k]) = sum_list r" by simp
  have "real_nk (r # R) = (\<lambda>j. r ! j + real_nk R j)"
    by (simp add: fun_eq_iff real_nk_def)
  then have "sum_list (map (real_nk (r # R)) [0..<k]) =
        sum_list (map (\<lambda>j. r ! j + real_nk R j) [0..<k])"
    by simp
  also have "\<dots> = sum_list (map (\<lambda>j. r ! j) [0..<k]) + sum_list (map (real_nk R) [0..<k])"
    by (rule sum_list_addf)
  finally show ?case using r Cons by simp
qed

lemma sum_list_unit_bounds:
  fixes xs :: "real list"
  assumes "xs \<noteq> []" "\<forall>x \<in> set xs. 0 < x \<and> x < 1"
  shows "0 < sum_list xs \<and> sum_list xs < real (length xs)"
  using assms
proof (induction xs)
  case Nil
  then show ?case by simp
next
  case (Cons x xs)
  show ?case
  proof (cases "xs = []")
    case True
    then show ?thesis using Cons.prems by simp
  next
    case False
    then have "0 < sum_list xs \<and> sum_list xs < real (length xs)"
      using Cons by simp
    then show ?thesis using Cons.prems by simp
  qed
qed

lemma sum_real_weight:
  assumes l: "length vs = length ms" "length ws = length ms" "0 < length ms"
    and p: "\<forall>v \<in> set vs. 0 < v" "\<forall>w \<in> set ws. 0 < w"
    and n: "0 < length data"
  shows "0 < sum_list (map (real_weight data (map (real_row ms vs ws) data)) [0..<length ms]) \<and>
         sum_list (map (real_weight data (map (real_row ms vs ws) data)) [0..<length ms]) < 1"
proof -
  let ?R = "map (real_row ms vs ws) data"
  have len: "\<forall>r \<in> set ?R. length r = length ms"
    by (simp add: real_row_def)
  have b: "\<forall>s \<in> set (map sum_list ?R). 0 < s \<and> s < 1"
    using sum_list_real_row_bounds [OF l p] by simp
  have ne: "map sum_list ?R \<noteq> []" using n by simp
  have s: "0 < sum_list (map sum_list ?R) \<and> sum_list (map sum_list ?R) < real (length data)"
    using sum_list_unit_bounds [OF ne b] by simp
  have "real_weight data ?R = (\<lambda>j. real_nk ?R j * inverse (real (length data)))"
    by (simp add: fun_eq_iff real_weight_def divide_inverse)
  then have "sum_list (map (real_weight data ?R) [0..<length ms]) =
        sum_list (map (\<lambda>j. real_nk ?R j * inverse (real (length data))) [0..<length ms])"
    by simp
  also have "\<dots> = sum_list (map (real_nk ?R) [0..<length ms]) * inverse (real (length data))"
    by (rule sum_list_mult_const)
  also have "\<dots> = sum_list (map sum_list ?R) / real (length data)"
    using sum_real_nk [OF len] by (simp add: divide_inverse)
  finally show ?thesis using s n by simp
qed

subsection \<open>One iteration from a finite model\<close>

lemma is_fin_the_real: "is_fin x \<Longrightarrow> Fin (the_real x) = x"
  by (cases x) simp_all

lemma is_pos_the_real: "is_pos x \<Longrightarrow> Fin (the_real x) = x \<and> 0 < the_real x"
  by (cases x) simp_all

lemma list_all_is_fin: "list_all is_fin xs \<Longrightarrow> xs = map Fin (map the_real xs)"
  by (induction xs) (simp_all add: is_fin_the_real)

lemma list_all_is_pos:
  "list_all is_pos xs \<Longrightarrow> xs = map Fin (map the_real xs) \<and> (\<forall>v \<in> set (map the_real xs). 0 < v)"
  by (induction xs) (simp_all add: is_pos_the_real)

lemma finite_model_reals:
  assumes "finite_model k m"
  shows "means m = map Fin (map the_real (means m))"
    "variances m = map Fin (map the_real (variances m))"
    "weights m = map Fin (map the_real (weights m))"
    "length (map the_real (variances m)) = length (map the_real (means m))"
    "length (map the_real (weights m)) = length (map the_real (means m))"
    "\<forall>v \<in> set (map the_real (variances m)). 0 < v"
    "\<forall>w \<in> set (map the_real (weights m)). 0 < w"
    "length (map the_real (means m)) = k"
  using assms list_all_is_fin [of "means m"] list_all_is_pos [of "variances m"]
    list_all_is_pos [of "weights m"]
  by (simp_all add: finite_model_def)

lemma positive_rows_responsibilities:
  assumes "finite_model k m"
  shows "positive_rows k (responsibilities_of data m)"
  using real_row_pos [OF finite_model_reals(4,5,6,7) [OF assms]] finite_model_reals(8) [OF assms]
  by (simp add: positive_rows_def responsibilities_of_def)

lemma e_step_finite:
  assumes "finite_model k m"
  shows "e_step data k m = map (map Fin) (responsibilities_of data m)"
  using e_step_Fin [OF finite_model_reals(1-7) [OF assms], of data]
    finite_model_reals(8) [OF assms]
  by (simp add: responsibilities_of_def)

lemma em_iteration_finite:
  assumes f: "finite_model k m" and n: "0 < length data"
  shows "m_step data k (e_step data k m) m = Inr (em_update data k m)"
proof -
  have l: "length (responsibilities_of data m) = length data"
    by (simp add: responsibilities_of_def)
  have s: "length (means m) = k" "length (variances m) = k" "length (weights m) = k"
    using f by (simp_all add: finite_model_def)
  show ?thesis
    unfolding e_step_finite [OF f] em_update_def
    by (rule m_step_Fin [OF positive_rows_responsibilities [OF f] l n s])
qed

lemma list_all_map_upt: "list_all P (map f [0..<k]) \<longleftrightarrow> (\<forall>j < k. P (f j))"
  by (auto simp: list_all_iff)

lemma em_update_finite:
  assumes f: "finite_model k m" and n: "0 < length data" and c: "\<not> constant_data data"
  shows "finite_model k (em_update data k m)"
proof -
  let ?R = "responsibilities_of data m"
  have R: "positive_rows k ?R" using positive_rows_responsibilities [OF f] .
  have l: "length ?R = length data" by (simp add: responsibilities_of_def)
  obtain a b where ab: "a \<in> set data" "b \<in> set data" "a \<noteq> b"
    using not_constant_data [OF c] by blast
  have "0 < real_var data ?R j" if "j < k" for j
    using real_var_pos [OF R l that ab] .
  moreover have "0 < real_weight data ?R j" if "j < k" for j
    using real_weight_pos [OF R l n that] .
  ultimately show ?thesis
    by (simp add: finite_model_def em_update_def list_all_map_upt)
qed

lemma em_update_weights_sum:
  assumes f: "finite_model k m" and n: "0 < length data" and k: "0 < k"
  shows "\<exists>s. weights_sum (em_update data k m) = Fin s \<and> 0 < s \<and> s < 1"
proof -
  let ?ms = "map the_real (means m)"
  let ?vs = "map the_real (variances m)"
  let ?ws = "map the_real (weights m)"
  have len: "length ?ms = k" using finite_model_reals(8) [OF f] .
  have "0 < length ?ms" using k len by simp
  then have b: "0 < sum_list (map (real_weight data (map (real_row ?ms ?vs ?ws) data)) [0..<length ?ms]) \<and>
           sum_list (map (real_weight data (map (real_row ?ms ?vs ?ws) data)) [0..<length ?ms]) < 1"
    using sum_real_weight [OF finite_model_reals(4,5) [OF f] _ finite_model_reals(6,7) [OF f] n]
    by blast
  have "weights_sum (em_update data k m) =
        Fin (0 + sum_list (map (real_weight data (responsibilities_of data m)) [0..<k]))"
    unfolding weights_sum_def em_update_def by (simp add: foldl_plus_map_Fin)
  then show ?thesis using b len by (simp add: responsibilities_of_def)
qed

lemma em_update_constant:
  assumes f: "finite_model k m" and n: "0 < length data" and c: "constant_data data"
  shows "means (em_update data k m) = replicate k (Fin (hd data)) \<and>
         variances (em_update data k m) = replicate k (Fin 0) \<and>
         length (weights (em_update data k m)) = k"
proof -
  let ?R = "responsibilities_of data m"
  have R: "positive_rows k ?R" using positive_rows_responsibilities [OF f] .
  have l: "length ?R = length data" by (simp add: responsibilities_of_def)
  have "map (\<lambda>j. Fin (real_mean data ?R j)) [0..<k] = map (\<lambda>j. Fin (hd data)) [0..<k]"
    using real_mean_constant [OF R l n _ c] by simp
  moreover have "map (\<lambda>j. Fin (real_var data ?R j)) [0..<k] = map (\<lambda>j. Fin 0) [0..<k]"
    using real_var_constant [OF R l n _ c] by simp
  ultimately show ?thesis
    by (simp add: em_update_def map_replicate_const)
qed

subsection \<open>Iterations from a degenerate model\<close>

lemma foldl_plus_NaN: "xs \<noteq> [] \<Longrightarrow> \<forall>x \<in> set xs. x = NaN \<Longrightarrow> foldl (+) a xs = NaN"
  by (rule foldl_NaN) auto

lemma em_loop_continue:
  assumes "m_step data k (e_step data k m) m = Inr m'"
    "calculateLogLikelihood data (means m') (variances m') (weights m') = ll"
    "\<not> js_lt (Math_abs (ll - prev)) (Fin tolerance)"
  shows "em_loop (Suc left) data k m prev = em_loop left data k m' ll"
  using assms by (simp add: Let_def)

lemma em_loop_cases:
  assumes "m_step data k (e_step data k m) m = Inr m'"
  shows "em_loop (Suc left) data k m prev = Inr m' \<or>
         (\<exists>ll. em_loop (Suc left) data k m prev = em_loop left data k m' ll)"
  using assms by (auto simp: Let_def)

lemma responsibility_row_NaN:
  assumes "0 < k" "poisoned data k m" "x \<in> set data"
  shows "responsibility_row k m x = replicate k NaN"
proof -
  have a: "map (\<lambda>j. nth_js (weights m) j *
              gaussianPDF (Fin x) (nth_js (means m) j) (Math_sqrt (nth_js (variances m) j)))
            [0..<k] = map (\<lambda>j. NaN) [0..<k]"
    by (rule map_cong [OF refl]) (use assms in \<open>simp add: poisoned_def\<close>)
  have s: "foldl (+) (Fin 0) (map (\<lambda>j. NaN) [0..<k]) = NaN"
    by (rule foldl_plus_NaN) (use assms(1) in simp_all)
  show ?thesis
    unfolding responsibility_row_def Let_def a s by (simp add: map_replicate_const)
qed

lemma e_step_NaN:
  assumes "0 < k" "poisoned data k m"
  shows "e_step data k m = replicate (length data) (replicate k NaN)"
proof -
  have "map (responsibility_row k m) data = map (\<lambda>x. replicate k NaN) data"
    by (rule map_cong [OF refl]) (rule responsibility_row_NaN [OF assms])
  then show ?thesis by (simp add: e_step_def map_replicate_const)
qed

lemma m_step_component_NaN:
  assumes n: "0 < length data" and j: "j < k"
    and s: "length (means m) = k" "length (variances m) = k" "length (weights m) = k"
  shows "m_step_component data (replicate (length data) (replicate k NaN)) m j =
         m\<lparr>means := (means m)[j := NaN], variances := (variances m)[j := NaN],
           weights := (weights m)[j := NaN]\<rparr>"
proof -
  have nk: "foldl (\<lambda>sum r. sum + nth_js r j) (Fin 0) (replicate (length data) (replicate k NaN)) = NaN"
    by (rule foldl_NaN) (use n j in \<open>auto simp: nth_js_def\<close>)
  have u: "assign_js (means m) j v = (means m)[j := v]"
    "assign_js (variances m) j v = (variances m)[j := v]"
    "assign_js (weights m) j v = (weights m)[j := v]" for v
    using j s by (simp_all add: assign_js_update)
  have d: "NaN / b = NaN" for b :: jsnum by simp
  show ?thesis
    unfolding m_step_component_def Let_def
    by (simp only: nk u NaN_divide d)
qed

lemma m_step_NaN:
  assumes n: "0 < length data"
    and s: "length (means m) = k" "length (variances m) = k" "length (weights m) = k"
  shows "m_step data k (replicate (length data) (replicate k NaN)) m = Inr (nan_model k m)"
proof -
  have "foldl (m_step_component data (replicate (length data) (replicate k NaN))) m [0..<k] =
        m\<lparr>means := map (\<lambda>j. NaN) [0..<k] @ drop k (means m),
          variances := map (\<lambda>j. NaN) [0..<k] @ drop k (variances m),
          weights := map (\<lambda>j. NaN) [0..<k] @ drop k (weights m)\<rparr>"
    by (rule fold_component_updates [OF _ s order_refl])
       (rule m_step_component_NaN [OF n])
  then show ?thesis
    using s by (simp add: m_step_def nan_model_def map_replicate_const)
qed

lemma logLikelihood_NaN:
  assumes "0 < k" "data \<noteq> []" "poisoned data k m" "length (means m) = k"
  shows "calculateLogLikelihood data (means m) (variances m) (weights m) = NaN"
proof -
  have d: "mixture_density (means m) (variances m) (weights m) x = NaN" if "x \<in> set data" for x
    unfolding mixture_density_def
    by (rule foldl_NaN) (use assms that in \<open>simp_all add: poisoned_def\<close>)
  show ?thesis
    unfolding calculateLogLikelihood_def
    by (rule foldl_NaN) (use assms(2) d in simp_all)
qed

lemma poisoned_nan_model: "poisoned data k (nan_model k m)"
  by (simp add: poisoned_def nan_model_def nth_js_def)

lemma nan_model_idem: "nan_model k (nan_model k m) = nan_model k m"
  by (simp add: nan_model_def)

lemma nan_model_lengths:
  "length (means (nan_model k m)) = k \<and> length (variances (nan_model k m)) = k \<and>
   length (weights (nan_model k m)) = k"
  by (simp add: nan_model_def)

lemma em_iteration_poisoned:
  assumes "0 < k" "0 < length data" "poisoned data k m"
    "length (means m) = k" "length (variances m) = k" "length (weights m) = k"
  shows "m_step data k (e_step data k m) m = Inr (nan_model k m)"
  unfolding e_step_NaN [OF assms(1,3)] by (rule m_step_NaN [OF assms(2,4,5,6)])

lemma no_convergence_on_NaN: "\<not> js_lt (Math_abs (NaN - prev)) t"
  by (simp add: minus_jsnum_def)

lemma em_loop_poisoned:
  assumes k: "0 < k" and n: "0 < length data"
  shows "poisoned data k m \<Longrightarrow> length (means m) = k \<Longrightarrow> length (variances m) = k \<Longrightarrow>
         length (weights m) = k \<Longrightarrow>
         em_loop (Suc left) data k m prev = Inr (nan_model k m)"
proof (induction left arbitrary: m prev)
  case 0
  have ll: "calculateLogLikelihood data (means (nan_model k m)) (variances (nan_model k m))
              (weights (nan_model k m)) = NaN"
    using logLikelihood_NaN [OF k _ poisoned_nan_model] n nan_model_lengths by auto
  have "em_loop (Suc 0) data k m prev = em_loop 0 data k (nan_model k m) NaN"
    by (rule em_loop_continue [OF em_iteration_poisoned [OF k n 0] ll no_convergence_on_NaN])
  then show ?case by simp
next
  case (Suc left)
  have ll: "calculateLogLikelihood data (means (nan_model k m)) (variances (nan_model k m))
              (weights (nan_model k m)) = NaN"
    using logLikelihood_NaN [OF k _ poisoned_nan_model] n nan_model_lengths by auto
  have "em_loop (Suc (Suc left)) data k m prev = em_loop (Suc left) data k (nan_model k m) NaN"
    by (rule em_loop_continue [OF em_iteration_poisoned [OF k n Suc.prems] ll
          no_convergence_on_NaN])
  also have "\<dots> = Inr (nan_model k (nan_model k m))"
    using Suc.IH [OF poisoned_nan_model] nan_model_lengths by blast
  finally show ?case by (simp only: nan_model_idem)
qed

subsection \<open>The loop of the fit\<close>

lemma poisoned_zero_variance:
  assumes "constant_data data" "means m = replicate k (Fin (hd data))"
    "variances m = replicate k (Fin 0)"
  shows "poisoned data k m"
proof -
  have "x = hd data" if "x \<in> set data" for x
    using assms(1) that by (simp add: constant_data_def list_all_iff)
  moreover have "gaussianPDF (Fin c) (Fin c) (Fin 0) = NaN" for c
    using gaussianPDF_zero_variance [of c] by simp
  ultimately show ?thesis
    by (simp add: poisoned_def assms nth_js_def)
qed

lemma nan_model_em_update: "nan_model k (em_update data k m) = nan_model k m"
  by (simp add: nan_model_def em_update_def)

lemma em_loop_constant:
  assumes k: "0 < k" and n: "0 < length data" and c: "constant_data data"
    and f: "finite_model k m"
  shows "em_loop (Suc (Suc left)) data k m prev = Inr (nan_model k m)"
proof -
  let ?m = "em_update data k m"
  have z: "means ?m = replicate k (Fin (hd data)) \<and> variances ?m = replicate k (Fin 0) \<and>
           length (weights ?m) = k"
    using em_update_constant [OF f n c] .
  have p: "poisoned data k ?m" using poisoned_zero_variance [OF c] z by blast
  have l: "length (means ?m) = k" "length (variances ?m) = k" "length (weights ?m) = k"
    using z by simp_all
  have ll: "calculateLogLikelihood data (means ?m) (variances ?m) (weights ?m) = NaN"
    using logLikelihood_NaN [OF k _ p l(1)] n by auto
  have "em_loop (Suc (Suc left)) data k m prev = em_loop (Suc left) data k ?m NaN"
    by (rule em_loop_continue [OF em_iteration_finite [OF f n] ll no_convergence_on_NaN])
  also have "\<dots> = Inr (nan_model k ?m)"
    by (rule em_loop_poisoned [OF k n p l])
  finally show ?thesis by (simp only: nan_model_em_update)
qed

lemma sub_unit_weights_em_update:
  assumes "finite_model k m" "0 < length data" "0 < k"
  shows "sub_unit_weights (em_update data k m)"
  using em_update_weights_sum [OF assms] by (auto simp: sub_unit_weights_def)

lemma em_loop_nonconstant:
  assumes k: "0 < k" and n: "0 < length data" and c: "\<not> constant_data data"
  shows "finite_model k m \<Longrightarrow>
         \<exists>m'. em_loop (Suc left) data k m prev = Inr m' \<and> finite_model k m' \<and>
              sub_unit_weights m'"
proof (induction left arbitrary: m prev)
  case 0
  have "em_loop (Suc 0) data k m prev = Inr (em_update data k m)"
    using em_loop_cases [OF em_iteration_finite [OF 0 n], of 0 prev] by auto
  then show ?case
    using em_update_finite [OF 0 n c] sub_unit_weights_em_update [OF 0 n k] by simp
next
  case (Suc left)
  let ?m = "em_update data k m"
  have f: "finite_model k ?m" using em_update_finite [OF Suc.prems n c] .
  have s: "sub_unit_weights ?m" using sub_unit_weights_em_update [OF Suc.prems n k] .
  consider "em_loop (Suc (Suc left)) data k m prev = Inr ?m"
    | ll where "em_loop (Suc (Suc left)) data k m prev = em_loop (Suc left) data k ?m ll"
    using em_loop_cases [OF em_iteration_finite [OF Suc.prems n], of "Suc left" prev] by blast
  then show ?case
  proof cases
    case 1
    then show ?thesis using f s by simp
  next
    case 2
    then show ?thesis using Suc.IH [OF f, of ll] by simp
  qed
qed

lemma finite_initial_model:
  assumes "0 < k" "0 < length data"
  shows "finite_model k (initial_model data k)"
proof -
  have "list_all is_fin (initializeMeans data k)"
    using initializeMeans_nth [OF assms(2,1)] by (simp add: list_all_iff)
  then show ?thesis
    using assms by (simp add: finite_model_def initial_model_def length_initializeMeans
        list_all_iff)
qed

lemma fields_m_step_fold:
  "isSimple (foldl (m_step_component data rs) m js) = isSimple m \<and>
   bic (foldl (m_step_component data rs) m js) = bic m \<and>
   passesWeightConstraint (foldl (m_step_component data rs) m js) = passesWeightConstraint m"
  by (induction js arbitrary: m) (simp_all add: m_step_component_def Let_def)

lemma fields_em_loop:
  "em_loop left data k m prev = Inr m' \<Longrightarrow>
   isSimple m' = isSimple m \<and> bic m' = bic m \<and>
   passesWeightConstraint m' = passesWeightConstraint m"
proof (induction left arbitrary: m prev)
  case 0
  then show ?case by simp
next
  case (Suc left)
  let ?m = "foldl (m_step_component data (e_step data k m)) m [0..<k]"
  have e: "m_step data k (e_step data k m) m = Inr ?m" by (rule m_step_e_step)
  have fl: "isSimple ?m = isSimple m \<and> bic ?m = bic m \<and>
            passesWeightConstraint ?m = passesWeightConstraint m"
    by (rule fields_m_step_fold)
  consider "em_loop (Suc left) data k m prev = Inr ?m"
    | ll where "em_loop (Suc left) data k m prev = em_loop left data k ?m ll"
    using em_loop_cases [OF e, of left prev] by blast
  then show ?case
  proof cases
    case 1
    then show ?thesis using Suc.prems fl by simp
  next
    case 2
    then show ?thesis using Suc.IH [of ?m ll] Suc.prems fl by simp
  qed
qed

lemma simpleGMM_fields:
  assumes "simpleGMM data k = Inr m"
  shows "nComponents m = k \<and> shape_ok m \<and> \<not> isSimple m \<and> bic m = None \<and>
         passesWeightConstraint m = None"
proof -
  have "isSimple m = isSimple (initial_model data k) \<and> bic m = bic (initial_model data k) \<and>
        passesWeightConstraint m = passesWeightConstraint (initial_model data k)"
    using assms fields_em_loop unfolding simpleGMM_def by blast
  then show ?thesis
    using shape_simpleGMM [of data k] assms by (simp add: initial_model_def)
qed

lemma simpleGMM_constant:
  assumes "0 < k" "0 < length data" "constant_data data"
  shows "simpleGMM data k = Inr (nan_model k (initial_model data k))"
  unfolding simpleGMM_def maxIter_def
  using em_loop_constant [OF assms finite_initial_model [OF assms(1,2)], of 98 NInf]
  by (simp add: eval_nat_numeral)

lemma simpleGMM_nonconstant:
  assumes "0 < k" "0 < length data" "\<not> constant_data data"
  shows "\<exists>m. simpleGMM data k = Inr m \<and> finite_model k m \<and> sub_unit_weights m"
  unfolding simpleGMM_def maxIter_def
  using em_loop_nonconstant [OF assms finite_initial_model [OF assms(1,2)], of 99 NInf]
  by (simp add: eval_nat_numeral)

subsection \<open>Constant data: two facts for the examples\<close>

lemma constant_fives: "constant_data [5, 5, 5, 5, 5]"
  by (simp add: constant_data_def)


subsection \<open>The selector returns\<close>

lemma reduce_js_total: "xs \<noteq> [] \<Longrightarrow> \<exists>m. reduce_js f xs = Inr m"
  by (cases xs) (simp_all add: reduce_js_def)

lemma select_best_total: "\<exists>m. select_best models = Inr m"
  using reduce_js_total [of "filter (\<lambda>m. passesWeightConstraint m = Some True) models" better]
  by (auto simp: select_best_def Let_def)

lemma fit_candidates_three:
  "\<exists>m1 m2 m3. simpleGMM data 1 = Inr m1 \<and> simpleGMM data 2 = Inr m2 \<and>
     simpleGMM data 3 = Inr m3 \<and>
     fit_candidates data [1, 2, 3] =
       Inr [score_model data m1, score_model data m2, score_model data m3]"
proof -
  obtain m1 m2 m3 where "simpleGMM data 1 = Inr m1" "simpleGMM data 2 = Inr m2"
    "simpleGMM data 3 = Inr m3"
    using shape_simpleGMM [of data 1] shape_simpleGMM [of data 2] shape_simpleGMM [of data 3]
    by blast
  then show ?thesis by simp
qed

lemma Math_max_NaN: "0 < k \<Longrightarrow> Math_max (replicate k NaN) = NaN"
  unfolding Math_max_def by (rule foldl_NaN) (auto simp: js_max2_def)

text \<open>
  C5. \<open>fitGMM\<close> returns a model for every dataset and raises no exception: below 5
  samples through \<open>simpleMeanStd\<close>, otherwise through three fits that each return and a
  \<open>reduce\<close> that only runs on a non-empty array. Whatever the arithmetic yields, also
  \<open>NaN\<close> or an infinity, is a field of the model returned.
\<close>

theorem fitGMM_never_throws: "\<exists>m. fitGMM data = Inr m"
proof (cases "length data < 5")
  case True
  then show ?thesis by (simp add: fitGMM_def)
next
  case False
  obtain ms where "fit_candidates data [1, 2, 3] = Inr ms"
    using fit_candidates_three [of data] by blast
  then show ?thesis
    using False select_best_total [of ms] by (simp add: fitGMM_def)
qed

subsection \<open>Finite log-likelihood and BIC\<close>







subsection \<open>The selection of fitGMM\<close>


lemma fitGMM_large:
  assumes "5 \<le> length data" "simpleGMM data 1 = Inr m1" "simpleGMM data 2 = Inr m2"
    "simpleGMM data 3 = Inr m3"
  shows "fitGMM data =
         select_best [score_model data m1, score_model data m2, score_model data m3]"
  using assms by (simp add: fitGMM_def)

subsection \<open>The BIC formula\<close>

lemma jsnum_add_assoc: "(a + b) + c = a + (b + c)" for a b c :: jsnum
  by (cases a; cases b; cases c) simp_all

lemma jsnum_add_zero [simp]: "Fin 0 + a = a" "a + Fin 0 = a" for a :: jsnum
  by (cases a; simp)+

lemma foldl_plus_js_sum: "foldl (\<lambda>s x. s + g x) a xs = a + js_sum (map g xs)"
  by (induction xs arbitrary: a) (simp_all add: jsnum_add_assoc)

lemma mixture_density_spec:
  assumes "shape_ok m"
  shows "mixture_density (means m) (variances m) (weights m) x =
         js_sum (map (\<lambda>j. weights m ! j *
                          gaussianPDF (Fin x) (means m ! j) (Math_sqrt (variances m ! j)))
                  [0..<nComponents m])"
proof -
  have l: "length (means m) = nComponents m" "length (variances m) = nComponents m"
    "length (weights m) = nComponents m"
    using assms by (simp_all add: shape_ok_def)
  have e: "map (\<lambda>j. nth_js (weights m) j *
               gaussianPDF (Fin x) (nth_js (means m) j) (Math_sqrt (nth_js (variances m) j)))
          [0..<nComponents m] =
        map (\<lambda>j. weights m ! j *
               gaussianPDF (Fin x) (means m ! j) (Math_sqrt (variances m ! j)))
          [0..<nComponents m]"
    by (rule map_cong [OF refl]) (simp add: nth_js_def l)
  have "mixture_density (means m) (variances m) (weights m) x =
        js_sum (map (\<lambda>j. nth_js (weights m) j *
               gaussianPDF (Fin x) (nth_js (means m) j) (Math_sqrt (nth_js (variances m) j)))
          [0..<nComponents m])"
    by (simp add: mixture_density_def foldl_plus_js_sum l)
  then show ?thesis by (simp only: e)
qed

text \<open>
  C6. For a model whose arrays have one entry per component, \<open>calculateBIC\<close> is
  \<open>-2 * logLikelihood + numParams * ln(n)\<close> with \<open>numParams = k + k + (k - 1)\<close>, which is
  2, 5 and 8 for 1, 2 and 3 components, and the log-likelihood the sum over the samples
  of \<open>log(sum_j weight_j * gaussianPDF(x_i; mean_j, sqrt(variance_j)) + 1e-10)\<close>.
\<close>

theorem calculateBIC_formula:
  assumes "shape_ok m"
  shows "calculateBIC data m =
           Fin (- 2) * spec_logLikelihood data m +
           Fin (spec_numParams (nComponents m)) * Math_log (Fin (real (length data))) \<and>
         calculateLogLikelihood data (means m) (variances m) (weights m) =
           spec_logLikelihood data m \<and>
         spec_numParams 1 = 2 \<and> spec_numParams 2 = 5 \<and> spec_numParams 3 = 8"
proof -
  have ll: "calculateLogLikelihood data (means m) (variances m) (weights m) =
            spec_logLikelihood data m"
    by (simp add: calculateLogLikelihood_def spec_logLikelihood_def foldl_plus_js_sum
        mixture_density_spec [OF assms])
  have np: "real_of_int (numParams k) = spec_numParams k" for k
    by (simp add: numParams_def spec_numParams_def)
  show ?thesis
    by (simp add: calculateBIC_def Let_def ll np) (simp add: spec_numParams_def)
qed

theorem calculateBIC_formula_witness:
  "shape_ok \<lparr>nComponents = 1, means = [Fin 0], variances = [Fin 1], weights = [Fin 1],
             isSimple = False, bic = None, passesWeightConstraint = None\<rparr> \<and>
   calculateBIC [0]
     \<lparr>nComponents = 1, means = [Fin 0], variances = [Fin 1], weights = [Fin 1],
      isSimple = False, bic = None, passesWeightConstraint = None\<rparr> =
   Fin (- 2 * ln (1 / sqrt (2 * pi) + tiny))"
proof -
  have p: "0 < 1 / sqrt (2 * pi) + tiny" using tiny_pos by (simp add: add_pos_pos)
  then have q: "\<not> 1 / sqrt (2 * pi) + tiny < 0" "1 / sqrt (2 * pi) + tiny \<noteq> 0" by simp_all
  have g: "gaussianPDF (Fin 0) (Fin 0) (Fin 1) = Fin (1 / sqrt (2 * pi))"
    by (simp add: gaussianPDF_def Let_def)
  show ?thesis
    using calculateBIC_formula
      [of "\<lparr>nComponents = 1, means = [Fin 0], variances = [Fin 1], weights = [Fin 1],
            isSimple = False, bic = None, passesWeightConstraint = None\<rparr>" "[0]"] q
    by (simp add: shape_ok_def spec_logLikelihood_def g)
qed

subsection \<open>The dominant component\<close>

lemma foldl_js_max2_Fin:
  "foldl js_max2 (Fin a) (map Fin ws) = Fin (Max (set (a # ws)))"
proof (induction ws arbitrary: a)
  case Nil
  then show ?case by simp
next
  case (Cons w ws)
  have "js_max2 (Fin a) (Fin w) = Fin (max a w)"
    by (simp add: js_max2_def max_def)
  moreover have "Max (set (max a w # ws)) = Max (set (a # w # ws))"
    by (cases "ws = []") (simp_all add: max.assoc)
  ultimately show ?case using Cons.IH [of "max a w"] by simp
qed

lemma Math_max_Fin:
  assumes "ws \<noteq> []"
  shows "Math_max (map Fin ws) = Fin (Max (set ws))"
proof -
  obtain w rest where ws: "ws = w # rest" using assms by (cases ws) auto
  have "js_max2 NInf (Fin w) = Fin w" by (simp add: js_max2_def)
  then show ?thesis
    using foldl_js_max2_Fin [of w rest] by (simp add: Math_max_def ws)
qed

lemma indexOf_from_Fin:
  assumes "M \<in> set ws"
  shows "indexOf_from i (map Fin ws) (Fin M) = i + int (length (takeWhile (\<lambda>w. w \<noteq> M) ws))"
  using assms
proof (induction ws arbitrary: i)
  case Nil
  then show ?case by simp
next
  case (Cons w ws)
  show ?case
  proof (cases "w = M")
    case True
    then show ?thesis by simp
  next
    case False
    then have "M \<in> set ws" using Cons.prems by simp
    then show ?thesis using Cons.IH [of "i + 1"] False by simp
  qed
qed

lemma indexOf_from_NaN: "indexOf_from i xs NaN = - 1"
  by (induction xs arbitrary: i) simp_all

lemma takeWhile_below_Max:
  fixes ws :: "real list"
  assumes "ws \<noteq> []"
  shows "takeWhile (\<lambda>w. w < Max (set ws)) ws = takeWhile (\<lambda>w. w \<noteq> Max (set ws)) ws"
proof (rule takeWhile_cong [OF refl])
  fix w assume "w \<in> set ws"
  then have "w \<le> Max (set ws)" by simp
  then show "(w < Max (set ws)) = (w \<noteq> Max (set ws))" by auto
qed

lemma dominant_index_finite:
  assumes "ws \<noteq> []"
  shows "indexOf (map Fin ws) (Math_max (map Fin ws)) =
           int (length (takeWhile (\<lambda>w. w < Max (set ws)) ws)) \<and>
         length (takeWhile (\<lambda>w. w < Max (set ws)) ws) < length ws"
proof -
  have m: "Max (set ws) \<in> set ws" using assms by simp
  have "takeWhile (\<lambda>w. w \<noteq> Max (set ws)) ws \<noteq> ws"
    using m by (metis (mono_tags, lifting) takeWhile_eq_all_conv)
  then have "length (takeWhile (\<lambda>w. w \<noteq> Max (set ws)) ws) < length ws"
    using length_takeWhile_le [of "\<lambda>w. w \<noteq> Max (set ws)" ws]
    by (metis le_neq_implies_less takeWhile_eq_take take_all_iff order_refl)
  then show ?thesis
    using indexOf_from_Fin [OF m, of 0]
    by (simp add: indexOf_def Math_max_Fin [OF assms] takeWhile_below_Max [OF assms])
qed

lemma dominant_finite_model:
  assumes f: "finite_model k m" and k: "0 < k"
  shows "dominant_mean_variance m =
           (means m ! dominant_component m, variances m ! dominant_component m) \<and>
         variances m ! dominant_component m \<noteq> NaN"
proof -
  let ?ws = "map the_real (weights m)"
  have ne: "?ws \<noteq> []" using finite_model_reals(5,8) [OF f] k by auto
  have w: "weights m = map Fin ?ws" using finite_model_reals(3) [OF f] .
  have d: "dominant_component m = length (takeWhile (\<lambda>w. w < Max (set ?ws)) ?ws)"
    by (simp add: dominant_component_def Let_def)
  have i: "indexOf (weights m) (Math_max (weights m)) = int (dominant_component m)"
    and lt: "dominant_component m < length ?ws"
    using dominant_index_finite [OF ne] w d by simp_all
  have l: "dominant_component m < k" using lt finite_model_reals(5,8) [OF f] by simp
  have "is_pos (variances m ! dominant_component m)"
    using f l by (simp add: finite_model_def list_all_length)
  then have "variances m ! dominant_component m \<noteq> NaN" by auto
  moreover have "length (means m) = k" "length (variances m) = k"
    using f by (simp_all add: finite_model_def)
  ultimately show ?thesis
    using l by (simp add: dominant_mean_variance_def Let_def i nth_int_def nth_js_def)
qed

lemma dominant_nan_model:
  assumes "weights m = replicate k NaN" "variances m = replicate k NaN" "0 < k"
  shows "snd (dominant_mean_variance m) = NaN \<and> variances m ! dominant_component m = NaN"
proof -
  have "Math_max (weights m) = NaN" using Math_max_NaN [OF assms(3)] assms(1) by simp
  then have a: "snd (dominant_mean_variance m) = NaN"
    by (simp add: dominant_mean_variance_def Let_def indexOf_def indexOf_from_NaN nth_int_def)
  have "dominant_component m = 0"
    using assms(3) by (simp add: dominant_component_def Let_def assms(1) takeWhile_eq_Nil_iff)
  then show ?thesis using a assms by simp
qed

subsection \<open>The cumulative fit\<close>

lemma foldl_better_mem: "foldl better x rest \<in> set (x # rest)"
proof (induction rest rule: rev_induct)
  case Nil
  then show ?case by simp
next
  case (snoc y rest)
  then show ?case by (auto simp: better_def)
qed

lemma select_best_mem:
  assumes "models \<noteq> []" "select_best models = Inr m"
  shows "m \<in> set models"
proof (cases "filter (\<lambda>m. passesWeightConstraint m = Some True) models")
  case Nil
  then have "m = models ! 0" using assms(2) by (simp add: select_best_def)
  then show ?thesis using assms(1) by (simp add: hd_conv_nth [symmetric])
next
  case (Cons x rest)
  then have "m = foldl better x rest"
    using assms(2) by (simp add: select_best_def reduce_js_def)
  then have "m \<in> set (filter (\<lambda>m. passesWeightConstraint m = Some True) models)"
    using foldl_better_mem [of x rest] Cons by simp
  then show ?thesis by simp
qed

lemma simpleGMM_dichotomy:
  assumes "simpleGMM data k = Inr m" "0 < k" "0 < length data"
  shows "finite_model k m \<or> (weights m = replicate k NaN \<and> variances m = replicate k NaN)"
proof (cases "constant_data data")
  case True
  then show ?thesis
    using simpleGMM_constant [OF assms(2,3) True] assms(1) by (auto simp: nan_model_def)
next
  case False
  then show ?thesis using simpleGMM_nonconstant [OF assms(2,3) False] assms(1) by auto
qed

lemma score_model_lists:
  "means (score_model data m) = means m \<and> variances (score_model data m) = variances m \<and>
   weights (score_model data m) = weights m"
  by (simp add: score_model_def Let_def)

lemma fitGMM_dichotomy:
  assumes "5 \<le> length data"
  shows "\<exists>m k. fitGMM data = Inr m \<and> 0 < k \<and>
           (finite_model k m \<or> (weights m = replicate k NaN \<and> variances m = replicate k NaN))"
proof -
  have n: "0 < length data" using assms by auto
  obtain m1 m2 m3 where g: "simpleGMM data 1 = Inr m1" "simpleGMM data 2 = Inr m2"
    "simpleGMM data 3 = Inr m3"
    using fit_candidates_three [of data] by blast
  let ?models = "[score_model data m1, score_model data m2, score_model data m3]"
  obtain m where m: "select_best ?models = Inr m" using select_best_total by blast
  then have "m \<in> set ?models" using select_best_mem [of ?models m] by blast
  then consider "m = score_model data m1" | "m = score_model data m2" | "m = score_model data m3"
    by auto
  then have "\<exists>k. 0 < k \<and>
      (finite_model k m \<or> (weights m = replicate k NaN \<and> variances m = replicate k NaN))"
  proof cases
    case 1
    have "finite_model 1 m \<or> (weights m = replicate 1 NaN \<and> variances m = replicate 1 NaN)"
      using simpleGMM_dichotomy [OF g(1) _ n] score_model_lists [of data m1] 1
      by (simp add: finite_model_def)
    then show ?thesis by (intro exI [of _ 1]) simp
  next
    case 2
    have "finite_model 2 m \<or> (weights m = replicate 2 NaN \<and> variances m = replicate 2 NaN)"
      using simpleGMM_dichotomy [OF g(2) _ n] score_model_lists [of data m2] 2
      by (simp add: finite_model_def)
    then show ?thesis by (intro exI [of _ 2]) simp
  next
    case 3
    have "finite_model 3 m \<or> (weights m = replicate 3 NaN \<and> variances m = replicate 3 NaN)"
      using simpleGMM_dichotomy [OF g(3) _ n] score_model_lists [of data m3] 3
      by (simp add: finite_model_def)
    then show ?thesis by (intro exI [of _ 3]) simp
  qed
  then show ?thesis using fitGMM_large [OF assms g] m by auto
qed

lemma fitGMM_via_candidates:
  "5 \<le> length xs \<Longrightarrow> fit_candidates xs [1, 2, 3] = Inr models \<Longrightarrow>
   fitGMM xs = select_best models"
  by (simp add: fitGMM_def)

lemma cumulative_estimate_via_candidates:
  assumes "5 \<le> length (take (i + 1) data)"
    "fit_candidates (take (i + 1) data) [1, 2, 3] = Inr models"
    "select_best models = Inr m"
  shows "cumulative_estimate data i = Inr (dominant_mean_variance m)"
proof -
  have "\<not> length (take (i + 1) data) \<le> 4" using assms(1) by linarith
  then have n: "(length (take (i + 1) data) \<le> 4) = False" by (rule eq_False [THEN iffD2])
  show ?thesis
    by (simp only: cumulative_estimate_def Let_def n if_False assms(2,3) sum.case)
qed

lemma cumulative_estimate_large:
  assumes "5 \<le> length (take (i + 1) data)"
  shows "\<exists>m. fitGMM (take (i + 1) data) = Inr m \<and>
             cumulative_estimate data i = Inr (dominant_mean_variance m)"
proof -
  obtain m where m: "fitGMM (take (i + 1) data) = Inr m"
    using fitGMM_dichotomy [OF assms] by blast
  obtain models where c: "fit_candidates (take (i + 1) data) [1, 2, 3] = Inr models"
    using fit_candidates_three [of "take (i + 1) data"] by blast
  have "select_best models = Inr m"
    using fitGMM_via_candidates [OF assms c] m by simp
  then show ?thesis
    using cumulative_estimate_via_candidates [OF assms c] m by blast
qed

lemma plain_mean_variance_eq:
  assumes "2 \<le> length xs"
  shows "plain_mean_variance xs = (Fin (sample_mean xs), Fin (sample_variance xs))"
proof -
  have n: "real (length xs) \<noteq> 0" "real (length xs) - 1 \<noteq> 0" using assms by auto
  have m: "foldl (\<lambda>sum v. sum + Fin v) (Fin 0) xs / Fin (real (length xs)) = Fin (sample_mean xs)"
    using foldl_plus_Fin [of "\<lambda>v. v" 0 xs] n by (simp add: sample_mean_def)
  show ?thesis
    using foldl_plus_Fin [of "\<lambda>v. (v - sample_mean xs)\<^sup>2" 0 xs] n
    by (simp add: plain_mean_variance_def Let_def m sample_variance_def)
qed

lemma time_series_step_point:
  assumes "i < length data"
  shows "time_series_step data b i = Inr (push_point b (cumulativeFit_point data i))"
proof -
  have len: "length (take (i + 1) data) = i + 1" using assms by simp
  consider "i < 2" | "2 \<le> i" "i \<le> 3" | "4 \<le> i" by linarith
  then show ?thesis
  proof cases
    case 1
    then show ?thesis
      by (simp add: time_series_step_def cumulativeFit_point_def push_point_def push_null_def)
  next
    case 2
    have e: "cumulative_estimate data i =
             Inr (Fin (sample_mean (take (i + 1) data)), Fin (sample_variance (take (i + 1) data)))"
      using 2 len plain_mean_variance_eq [of "take (i + 1) data"]
      by (simp add: cumulative_estimate_def Let_def)
    show ?thesis
      using 2 unfolding time_series_step_def cumulativeFit_point_def e
      by (simp add: band_def isNaN_def push_point_def Let_def)
  next
    case 3
    then have l5: "5 \<le> length (take (i + 1) data)" using len by simp
    obtain m where m: "fitGMM (take (i + 1) data) = Inr m"
      and e: "cumulative_estimate data i = Inr (dominant_mean_variance m)"
      using cumulative_estimate_large [OF l5] by blast
    obtain k where k: "0 < k"
      and d: "finite_model k m \<or> (weights m = replicate k NaN \<and> variances m = replicate k NaN)"
      using fitGMM_dichotomy [OF l5] m by auto
    from d show ?thesis
    proof
      assume "finite_model k m"
      then show ?thesis
        using dominant_finite_model [OF _ k, of m] 3
        unfolding time_series_step_def cumulativeFit_point_def e m
        by (simp add: band_def isNaN_def push_point_def Let_def)
    next
      assume n: "weights m = replicate k NaN \<and> variances m = replicate k NaN"
      obtain mean variance where p: "dominant_mean_variance m = (mean, variance)"
        by (cases "dominant_mean_variance m")
      then have "variance = NaN \<and> variances m ! dominant_component m = NaN"
        using dominant_nan_model [of m k] n k by simp
      then show ?thesis
        using 3 unfolding time_series_step_def cumulativeFit_point_def e m p
        by (simp add: band_def isNaN_def push_point_def push_null_def)
    qed
  qed
qed

lemma time_series_loop_points:
  "\<forall>i \<in> set is. i < length data \<Longrightarrow>
   time_series_loop data is b = Inr (foldl push_point b (map (cumulativeFit_point data) is))"
  by (induction "is" arbitrary: b) (simp_all add: time_series_step_point)

lemma foldl_push_point:
  "upperCI (foldl push_point b ps) = upperCI b @ map (map_option (\<lambda>(m, l, u). u)) ps \<and>
   lowerCI (foldl push_point b ps) = lowerCI b @ map (map_option (\<lambda>(m, l, u). l)) ps \<and>
   meanLine (foldl push_point b ps) = meanLine b @ map (map_option (\<lambda>(m, l, u). m)) ps"
  by (induction ps arbitrary: b) (simp_all add: push_point_def)

text \<open>
  C2. The loop of \<open>plotTimeSeries\<close> returns, with one entry per index of the data in each
  of its three arrays, and the entries at index \<open>i\<close> are the mean, the lower and the
  upper bound of the point of the specification: absent for \<open>i < 2\<close>; for \<open>i = 2, 3\<close> the
  sample mean of \<open>data[0..i]\<close> with a band of \<open>1.96\<close> times the square root of the
  Bessel-corrected sample variance; for \<open>i \<ge> 4\<close> the mean and variance of the component of
  maximum weight of the model \<open>fitGMM\<close> selects on \<open>data[0..i]\<close>, with the same band, and
  absent when that variance is \<open>NaN\<close>.
\<close>

theorem plotTimeSeries_is_cumulativeFit:
  "\<exists>b. plotTimeSeries_bands data = Inr b \<and>
       meanLine b = map (map_option (\<lambda>(m, l, u). m)) (cumulativeFit data) \<and>
       lowerCI b = map (map_option (\<lambda>(m, l, u). l)) (cumulativeFit data) \<and>
       upperCI b = map (map_option (\<lambda>(m, l, u). u)) (cumulativeFit data) \<and>
       length (cumulativeFit data) = length data"
proof -
  have "plotTimeSeries_bands data =
        Inr (foldl push_point \<lparr>upperCI = [], lowerCI = [], meanLine = []\<rparr> (cumulativeFit data))"
    unfolding plotTimeSeries_bands_def cumulativeFit_def
    by (rule time_series_loop_points) simp
  then show ?thesis
    using foldl_push_point [of "\<lparr>upperCI = [], lowerCI = [], meanLine = []\<rparr>" "cumulativeFit data"]
    by (simp add: cumulativeFit_def)
qed

subsection \<open>Examples of the selection\<close>

lemma select_best_examples:
  "select_best [candidate 1 3 True, candidate 2 3 True, candidate 3 5 True] =
     Inr (candidate 1 3 True)"
  "select_best [candidate 1 7 True, candidate 2 3 False, candidate 3 5 True] =
     Inr (candidate 3 5 True)"
  "select_best [candidate 1 7 False, candidate 2 3 False, candidate 3 5 False] =
     Inr (candidate 1 7 False)"
  by (simp_all add: select_best_def reduce_js_def better_def bic_num_def candidate_def)

subsection \<open>The fit with one component on the dataset with an outlier\<close>

lemma exp_nat_upper: "exp (real n) \<le> 3 ^ n"
proof -
  have "exp (real n) = exp 1 ^ n" using exp_of_nat_mult [of n "1::real"] by simp
  also have "\<dots> \<le> 3 ^ n" by (rule power_mono [OF exp_le]) simp
  finally show ?thesis .
qed

lemma exp_nat_lower: "2 ^ n \<le> exp (real n)"
proof -
  have "(2::real) \<le> exp 1" using exp_ge_add_one_self [of "1::real"] by simp
  then have "(2::real) ^ n \<le> exp (1::real) ^ n" by (rule power_mono) simp
  then show ?thesis using exp_of_nat_mult [of n "1::real"] by simp
qed

lemma exp_minus_lower:
  assumes "t \<le> real n"
  shows "1 / 3 ^ n \<le> exp (- t)"
proof -
  have "exp t \<le> 3 ^ n" using assms exp_nat_upper [of n] by (simp add: order_trans [of "exp t" "exp (real n)"])
  then have "1 / 3 ^ n \<le> 1 / exp t" by (simp add: frac_le)
  then show ?thesis by (simp add: exp_minus inverse_eq_divide)
qed

lemma exp_minus_upper:
  assumes "real n \<le> t"
  shows "exp (- t) \<le> 1 / 2 ^ n"
proof -
  have "2 ^ n \<le> exp t" using assms exp_nat_lower [of n] by (simp add: order_trans [of "2 ^ n" "exp (real n)"])
  then have "1 / exp t \<le> 1 / 2 ^ n" by (simp add: frac_le)
  then show ?thesis by (simp add: exp_minus inverse_eq_divide)
qed

lemma upt_6: "[0..<6] = [0, 1, 2, 3, 4, 5]"
  by (simp add: upt_rec)

lemma square_le:
  fixes d :: real
  assumes "- c \<le> d" "d \<le> c"
  shows "d\<^sup>2 \<le> c\<^sup>2"
proof -
  have "\<bar>d\<bar> \<le> c" using assms by simp
  then have "\<bar>d\<bar>\<^sup>2 \<le> c\<^sup>2" by (rule power_mono) simp
  then show ?thesis by simp
qed

lemma square_ge:
  fixes d :: real
  assumes "0 \<le> c" "c \<le> d"
  shows "c\<^sup>2 \<le> d\<^sup>2"
  using assms by (simp add: power_mono)

lemma pdf_lower:
  assumes v: "1 / 4 \<le> v" "v \<le> 10" and q: "(x - m)\<^sup>2 \<le> 25 / 4"
  shows "1 / (9 * 3 ^ 13) \<le> pdf x m v"
proof -
  have v0: "0 < v" using v by simp
  have "(x - m)\<^sup>2 / (2 * v) \<le> (25 / 4) / (2 * (1 / 4))"
    by (rule frac_le) (use v q in simp_all)
  then have "(x - m)\<^sup>2 / (2 * v) \<le> real 13" by simp
  then have e: "1 / 3 ^ 13 \<le> exp (- ((x - m)\<^sup>2 / (2 * v)))" by (rule exp_minus_lower)
  have "v * (2 * pi) \<le> 10 * (2 * 4)"
    by (rule mult_mono) (use v pi_less_4 in simp_all)
  then have "sqrt (v * (2 * pi)) \<le> sqrt 81" by (simp only: real_sqrt_le_iff)
  then have s: "sqrt v * sqrt (2 * pi) \<le> 9" by (simp add: real_sqrt_mult)
  have sp: "0 < sqrt v * sqrt (2 * pi)" using v0 by simp
  have c: "1 / 9 \<le> 1 / (sqrt v * sqrt (2 * pi))"
    by (rule frac_le) (use s sp in simp_all)
  have "1 / 9 * (1 / 3 ^ 13) \<le> 1 / (sqrt v * sqrt (2 * pi)) * exp (- ((x - m)\<^sup>2 / (2 * v)))"
    by (rule mult_mono [OF c e]) (use sp in simp_all)
  then show ?thesis using v0 by (simp add: pdf_def)
qed

lemma pdf_upper:
  assumes v: "1 / 4 \<le> v" "v \<le> 10" and q: "(107 / 2)\<^sup>2 \<le> (x - m)\<^sup>2"
  shows "pdf x m v \<le> 1 / 2 ^ 143"
proof -
  have v0: "0 < v" using v by simp
  have "(107 / 2)\<^sup>2 / (2 * 10) \<le> (x - m)\<^sup>2 / (2 * v)"
    by (rule frac_le) (use v q in simp_all)
  then have "real 143 \<le> (x - m)\<^sup>2 / (2 * v)" by (simp add: power2_eq_square)
  then have e: "exp (- ((x - m)\<^sup>2 / (2 * v))) \<le> 1 / 2 ^ 143" by (rule exp_minus_upper)
  have "1 / 4 * 4 \<le> v * (2 * pi)"
    by (rule mult_mono) (use v pi_ge_two in simp_all)
  then have "sqrt 1 \<le> sqrt (v * (2 * pi))" by (simp only: real_sqrt_le_iff)
  then have s: "1 \<le> sqrt v * sqrt (2 * pi)" by (simp add: real_sqrt_mult)
  have c: "1 / (sqrt v * sqrt (2 * pi)) \<le> 1" using s by simp
  have c0: "0 \<le> 1 / (sqrt v * sqrt (2 * pi))" using v0 by simp
  have "1 / (sqrt v * sqrt (2 * pi)) * exp (- ((x - m)\<^sup>2 / (2 * v))) \<le> 1 * (1 / 2 ^ 143)"
    by (rule mult_mono [OF c e]) (use c0 in simp_all)
  then show ?thesis using v0 by (simp add: pdf_def)
qed

lemma rho_inlier:
  assumes v: "1 / 4 \<le> v" "v \<le> 10" and w: "1 / 2 \<le> w" "w \<le> 1"
    and q: "(x - m)\<^sup>2 \<le> 25 / 4"
  shows "9 / 10 \<le> rho m v w x \<and> rho m v w x \<le> 1"
proof -
  have p: "1 / (9 * 3 ^ 13) \<le> pdf x m v" using pdf_lower [OF v q] .
  have "1 / 2 * (1 / (9 * 3 ^ 13)) \<le> w * pdf x m v"
    by (rule mult_mono [OF w(1) p]) (use w in simp_all)
  then have s: "9 * tiny \<le> w * pdf x m v" by (simp add: tiny_def)
  have t: "0 < tiny" by (rule tiny_pos)
  then have d: "0 < w * pdf x m v + tiny" using s by linarith
  have "9 / 10 \<le> w * pdf x m v / (w * pdf x m v + tiny)"
    using s d by (simp add: pos_le_divide_eq)
  moreover have "w * pdf x m v / (w * pdf x m v + tiny) \<le> 1"
    using t d by (simp add: pos_divide_le_eq)
  ultimately show ?thesis by (simp add: rho_def)
qed

lemma rho_outlier:
  assumes v: "1 / 4 \<le> v" "v \<le> 10" and w: "1 / 2 \<le> w" "w \<le> 1"
    and q: "(107 / 2)\<^sup>2 \<le> (x - m)\<^sup>2"
  shows "0 \<le> rho m v w x \<and> rho m v w x \<le> 1 / 1000"
proof -
  have p: "pdf x m v \<le> 1 / 2 ^ 143" using pdf_upper [OF v q] .
  have p0: "0 < pdf x m v" using v by (simp add: pdf_pos)
  have "w * pdf x m v \<le> 1 * (1 / 2 ^ 143)"
    by (rule mult_mono [OF w(2) p]) (use p0 in simp_all)
  then have s: "999 * (w * pdf x m v) \<le> tiny" by (simp add: tiny_def)
  have s0: "0 \<le> w * pdf x m v" using w p0 by simp
  have t: "0 < tiny" by (rule tiny_pos)
  then have d: "0 < w * pdf x m v + tiny" using s0 by linarith
  have "w * pdf x m v / (w * pdf x m v + tiny) \<le> 1 / 1000"
    using s d by (simp add: pos_divide_le_eq)
  moreover have "0 \<le> w * pdf x m v / (w * pdf x m v + tiny)"
    using s0 d by simp
  ultimately show ?thesis by (simp add: rho_def)
qed

lemma responsibilities_outlier:
  assumes "means m = [Fin mu]" "variances m = [Fin v]" "weights m = [Fin w]"
  shows "responsibilities_of outlier_data m = map (\<lambda>x. [rho mu v w x]) outlier_data"
  by (simp add: responsibilities_of_def real_row_def density_def rho_def assms)

lemma outlier_sums:
  assumes R: "R = [[a], [b], [b], [b], [c], [d]]"
  shows "real_nk R 0 = a + 3 * b + c + d"
    "real_mean outlier_data R 0 = (4 * a + 15 * b + 6 * c + 60 * d) / (a + 3 * b + c + d)"
    "real_var outlier_data R 0 =
       (a * (4 - real_mean outlier_data R 0)\<^sup>2 + 3 * b * (5 - real_mean outlier_data R 0)\<^sup>2 +
        c * (6 - real_mean outlier_data R 0)\<^sup>2 + d * (60 - real_mean outlier_data R 0)\<^sup>2) /
       (a + 3 * b + c + d)"
    "real_weight outlier_data R 0 = (a + 3 * b + c + d) / 6"
proof -
  show nk: "real_nk R 0 = a + 3 * b + c + d" by (simp add: real_nk_def R)
  show "real_mean outlier_data R 0 = (4 * a + 15 * b + 6 * c + 60 * d) / (a + 3 * b + c + d)"
    by (simp add: real_mean_def nk outlier_data_def upt_6) (simp add: R)
  show "real_var outlier_data R 0 =
       (a * (4 - real_mean outlier_data R 0)\<^sup>2 + 3 * b * (5 - real_mean outlier_data R 0)\<^sup>2 +
        c * (6 - real_mean outlier_data R 0)\<^sup>2 + d * (60 - real_mean outlier_data R 0)\<^sup>2) /
       (a + 3 * b + c + d)"
    by (simp add: real_var_def nk outlier_data_def upt_6 power2_eq_square) (simp add: R algebra_simps)
  show "real_weight outlier_data R 0 = (a + 3 * b + c + d) / 6"
    by (simp add: real_weight_def nk outlier_data_def)
qed

lemma outlier_step_bounds:
  assumes a: "9 / 10 \<le> a" "a \<le> 1" and b: "9 / 10 \<le> b" "b \<le> 1"
    and c: "9 / 10 \<le> c" "c \<le> 1" and d: "0 \<le> d" "d \<le> 1 / 1000"
    and R: "R = [[a], [b], [b], [b], [c], [d]]"
  shows "4 \<le> real_mean outlier_data R 0 \<and> real_mean outlier_data R 0 \<le> 13 / 2 \<and>
         1 / 4 \<le> real_var outlier_data R 0 \<and> real_var outlier_data R 0 \<le> 10 \<and>
         3 / 4 \<le> real_weight outlier_data R 0 \<and> real_weight outlier_data R 0 \<le> 5001 / 6000"
proof -
  define S where "S = a + 3 * b + c + d"
  define mu where "mu = real_mean outlier_data R 0"
  have S: "0 < S" "9 / 2 \<le> S" "S \<le> 5001 / 1000"
    using a b c d by (simp_all add: S_def)
  have m: "mu = (4 * a + 15 * b + 6 * c + 60 * d) / S"
    unfolding mu_def S_def by (rule outlier_sums(2) [OF R])
  have m1: "4 \<le> mu"
    unfolding m using S(1) a b c d by (simp add: pos_le_divide_eq S_def)
  have m2: "mu \<le> 13 / 2"
    unfolding m using S(1) a b c d by (simp add: pos_divide_le_eq S_def)
  have q4: "(4 - mu)\<^sup>2 \<le> (5 / 2)\<^sup>2" by (rule square_le) (use m1 m2 in simp_all)
  have q5: "(5 - mu)\<^sup>2 \<le> (5 / 2)\<^sup>2" by (rule square_le) (use m1 m2 in simp_all)
  have q6: "(6 - mu)\<^sup>2 \<le> (5 / 2)\<^sup>2" by (rule square_le) (use m1 m2 in simp_all)
  have q60: "(60 - mu)\<^sup>2 \<le> 56\<^sup>2" by (rule square_le) (use m1 m2 in simp_all)
  have u4: "a * (4 - mu)\<^sup>2 \<le> 1 * (5 / 2)\<^sup>2"
    by (rule mult_mono [OF a(2) q4]) simp_all
  have u5: "b * (5 - mu)\<^sup>2 \<le> 1 * (5 / 2)\<^sup>2"
    by (rule mult_mono [OF b(2) q5]) simp_all
  have u6: "c * (6 - mu)\<^sup>2 \<le> 1 * (5 / 2)\<^sup>2"
    by (rule mult_mono [OF c(2) q6]) simp_all
  have u60: "d * (60 - mu)\<^sup>2 \<le> 1 / 1000 * 56\<^sup>2"
    by (rule mult_mono [OF d(2) q60]) (use d in simp_all)
  have l4: "9 / 10 * (4 - mu)\<^sup>2 \<le> a * (4 - mu)\<^sup>2"
    by (rule mult_right_mono [OF a(1)]) simp
  have l5: "9 / 10 * (5 - mu)\<^sup>2 \<le> b * (5 - mu)\<^sup>2"
    by (rule mult_right_mono [OF b(1)]) simp
  have l6: "9 / 10 * (6 - mu)\<^sup>2 \<le> c * (6 - mu)\<^sup>2"
    by (rule mult_right_mono [OF c(1)]) simp
  have l60: "0 \<le> d * (60 - mu)\<^sup>2" using d by simp
  have "(4 - mu)\<^sup>2 + 3 * (5 - mu)\<^sup>2 + (6 - mu)\<^sup>2 = 5 * (mu - 5)\<^sup>2 + 2"
    by (simp add: power2_eq_square algebra_simps)
  then have spread: "2 \<le> (4 - mu)\<^sup>2 + 3 * (5 - mu)\<^sup>2 + (6 - mu)\<^sup>2" by simp
  define N where "N = a * (4 - mu)\<^sup>2 + 3 * b * (5 - mu)\<^sup>2 + c * (6 - mu)\<^sup>2 + d * (60 - mu)\<^sup>2"
  have N1: "9 / 5 \<le> N" unfolding N_def using l4 l5 l6 l60 spread by linarith
  have N2: "N \<le> 35" unfolding N_def using u4 u5 u6 u60 by (simp add: power2_eq_square)
  have v: "real_var outlier_data R 0 = N / S"
    unfolding N_def S_def mu_def by (rule outlier_sums(3) [OF R])
  have v1: "1 / 4 \<le> real_var outlier_data R 0"
    unfolding v using S N1 by (simp add: pos_le_divide_eq)
  have v2: "real_var outlier_data R 0 \<le> 10"
    unfolding v using S N2 by (simp add: pos_divide_le_eq)
  have w: "real_weight outlier_data R 0 = S / 6"
    unfolding S_def by (rule outlier_sums(4) [OF R])
  have w1: "3 / 4 \<le> real_weight outlier_data R 0" unfolding w using S by simp
  have w2: "real_weight outlier_data R 0 \<le> 5001 / 6000" unfolding w using S by simp
  show ?thesis using m1 m2 v1 v2 w1 w2 by (simp add: mu_def)
qed

lemma steady_finite: "steady m \<Longrightarrow> finite_model 1 m"
  by (auto simp: steady_def finite_model_def)

lemma steady_em_update:
  assumes "steady m"
  shows "settled (em_update outlier_data 1 m)"
proof -
  obtain mu v w where p: "means m = [Fin mu]" "variances m = [Fin v]" "weights m = [Fin w]"
    and mu: "4 \<le> mu" "mu \<le> 13 / 2" and v: "1 / 4 \<le> v" "v \<le> 10"
    and w: "1 / 2 \<le> w" "w \<le> 1"
    using assms by (auto simp: steady_def)
  let ?R = "responsibilities_of outlier_data m"
  have R: "?R = [[rho mu v w 4], [rho mu v w 5], [rho mu v w 5], [rho mu v w 5],
                 [rho mu v w 6], [rho mu v w 60]]"
    unfolding responsibilities_outlier [OF p] by (simp add: outlier_data_def)
  have i4: "(4 - mu)\<^sup>2 \<le> 25 / 4"
    using square_le [of "5 / 2" "4 - mu"] mu by (simp add: power2_eq_square)
  have i5: "(5 - mu)\<^sup>2 \<le> 25 / 4"
    using square_le [of "5 / 2" "5 - mu"] mu by (simp add: power2_eq_square)
  have i6: "(6 - mu)\<^sup>2 \<le> 25 / 4"
    using square_le [of "5 / 2" "6 - mu"] mu by (simp add: power2_eq_square)
  have o: "(107 / 2)\<^sup>2 \<le> (60 - mu)\<^sup>2"
    by (rule square_ge) (use mu in simp_all)
  have b: "4 \<le> real_mean outlier_data ?R 0 \<and> real_mean outlier_data ?R 0 \<le> 13 / 2 \<and>
         1 / 4 \<le> real_var outlier_data ?R 0 \<and> real_var outlier_data ?R 0 \<le> 10 \<and>
         3 / 4 \<le> real_weight outlier_data ?R 0 \<and> real_weight outlier_data ?R 0 \<le> 5001 / 6000"
    using rho_inlier [OF v w i4] rho_inlier [OF v w i5] rho_inlier [OF v w i6]
      rho_outlier [OF v w o]
    by (intro outlier_step_bounds [OF _ _ _ _ _ _ _ _ R]) simp_all
  show ?thesis
    using b by (simp add: settled_def steady_def em_update_def)
qed

lemma settled_steady: "settled m \<Longrightarrow> steady m"
  by (simp add: settled_def)

lemma em_loop_outlier:
  "steady m \<Longrightarrow>
   \<exists>m'. em_loop (Suc left) outlier_data 1 m prev = Inr m' \<and> settled m'"
proof (induction left arbitrary: m prev)
  case 0
  have n: "0 < length outlier_data" by (simp add: outlier_data_def)
  have "em_loop (Suc 0) outlier_data 1 m prev = Inr (em_update outlier_data 1 m)"
    using em_loop_cases [OF em_iteration_finite [OF steady_finite [OF 0] n], of 0 prev] by auto
  then show ?case using steady_em_update [OF 0] by simp
next
  case (Suc left)
  have n: "0 < length outlier_data" by (simp add: outlier_data_def)
  let ?m = "em_update outlier_data 1 m"
  have s: "settled ?m" using steady_em_update [OF Suc.prems] .
  consider "em_loop (Suc (Suc left)) outlier_data 1 m prev = Inr ?m"
    | ll where "em_loop (Suc (Suc left)) outlier_data 1 m prev =
                em_loop (Suc left) outlier_data 1 ?m ll"
    using em_loop_cases [OF em_iteration_finite [OF steady_finite [OF Suc.prems] n],
        of "Suc left" prev] by blast
  then show ?case
  proof cases
    case 1
    then show ?thesis using s by simp
  next
    case 2
    then show ?thesis using Suc.IH [OF settled_steady [OF s], of ll] by simp
  qed
qed

lemma steady_initial_outlier: "steady (initial_model outlier_data 1)"
proof -
  have "sort outlier_data = outlier_data" by (simp add: outlier_data_def)
  then have "initializeMeans outlier_data 1 = [Fin 5]"
    by (simp add: initializeMeans_def sorted_at_def) (simp add: outlier_data_def)
  then show ?thesis by (simp add: steady_def initial_model_def)
qed

lemma simpleGMM_outlier:
  "\<exists>m w. simpleGMM outlier_data 1 = Inr m \<and> weights m = [Fin w] \<and>
         3 / 4 \<le> w \<and> w \<le> 5001 / 6000"
proof -
  obtain m where "simpleGMM outlier_data 1 = Inr m" "settled m"
    using em_loop_outlier [OF steady_initial_outlier, of 99 NInf]
    by (auto simp: simpleGMM_def maxIter_def eval_nat_numeral)
  then show ?thesis by (auto simp: settled_def)
qed

subsection \<open>The reduce picks the first minimum\<close>



lemma js_lt_irrefl [simp]: "\<not> js_lt a a"
  by (cases a) simp_all






subsection \<open>Fits of constant data\<close>




subsection \<open>The sum of the weights\<close>

lemma weights_sum_single: "weights m = [a] \<Longrightarrow> weights_sum m = a"
  by (simp add: weights_sum_def)

lemma sub_unit_weights_bounds:
  assumes "sub_unit_weights m"
  shows "is_nonneg (weights_sum m) \<and> js_ge (Fin (1 + 1 / 10 ^ 6)) (weights_sum m)"
  using assms by (cases "weights_sum m") (simp_all add: sub_unit_weights_def)

lemma list_all_is_nonneg: "list_all is_pos xs \<Longrightarrow> list_all is_nonneg xs"
proof (induction xs)
  case Nil
  then show ?case by simp
next
  case (Cons x xs)
  then show ?case by (cases x) simp_all
qed

text \<open>
  C4, amended. For a dataset of at least one sample and \<open>k \<ge> 1\<close> components the fit
  returns a model whose weights are either all \<open>NaN\<close>, or all finite and non-negative
  with a sum that does not exceed 1 by more than \<open>1e-6\<close>. Nothing keeps the sum from
  falling short of 1: each row of responsibilities is divided by its sum plus \<open>1e-10\<close>.
\<close>

theorem fitted_weights_sum:
  assumes "1 \<le> length data" "1 \<le> k"
  shows "\<exists>m. simpleGMM data k = Inr m \<and>
           (weights m = replicate k NaN \<and> weights_sum m = NaN \<or>
            list_all is_nonneg (weights m) \<and> is_nonneg (weights_sum m) \<and>
            js_ge (Fin (1 + 1 / 10 ^ 6)) (weights_sum m))"
proof -
  have n: "0 < length data" and k: "0 < k" using assms by auto
  show ?thesis
  proof (cases "constant_data data")
    case True
    have "foldl (+) (Fin 0) (replicate k NaN) = NaN"
      by (rule foldl_plus_NaN) (use k in auto)
    then show ?thesis
      using simpleGMM_constant [OF k n True] by (simp add: nan_model_def weights_sum_def)
  next
    case False
    obtain m where m: "simpleGMM data k = Inr m" "finite_model k m" "sub_unit_weights m"
      using simpleGMM_nonconstant [OF k n False] by blast
    have "list_all is_nonneg (weights m)"
      using m(2) list_all_is_nonneg by (simp add: finite_model_def)
    then show ?thesis using m(1) sub_unit_weights_bounds [OF m(3)] by simp
  qed
qed

theorem fitted_weights_sum_witness:
  "1 \<le> length outlier_data \<and> (1::nat) \<le> 1 \<and>
   (\<exists>m. simpleGMM outlier_data 1 = Inr m \<and> list_all is_nonneg (weights m) \<and>
      is_nonneg (weights_sum m) \<and> js_ge (Fin (1 + 1 / 10 ^ 6)) (weights_sum m))"
proof -
  have l: "1 \<le> length outlier_data" by (simp add: outlier_data_def)
  obtain m w where m: "simpleGMM outlier_data 1 = Inr m" "weights m = [Fin w]"
    using simpleGMM_outlier by blast
  then have "weights m \<noteq> replicate 1 NaN" by simp
  then show ?thesis
    using fitted_weights_sum [OF l, of 1] m(1) l by auto
qed

text \<open>
  C4 as stated fails. On \<open>[5,5,5,5,5]\<close> with one component the weights are \<open>[NaN]\<close>, and
  their sum is not within \<open>1e-6\<close> of 1. On \<open>[4,5,5,5,6,60]\<close> with one component the
  sum of the weights is finite and not within \<open>1e-6\<close> of 1 either: the sample at 60 has
  next to no responsibility, and the weight stays between \<open>3/4\<close> and \<open>5001/6000\<close>.
\<close>

theorem fitted_weights_sum_counterexample:
  "simpleGMM [5, 5, 5, 5, 5] 1 = Inr (nan_model 1 (initial_model [5, 5, 5, 5, 5] 1)) \<and>
   weights (nan_model 1 (initial_model [5, 5, 5, 5, 5] 1)) = [NaN] \<and>
   weights_sum (nan_model 1 (initial_model [5, 5, 5, 5, 5] 1)) = NaN \<and>
   \<not> weights_sum_near_one (nan_model 1 (initial_model [5, 5, 5, 5, 5] 1)) \<and>
   is_fin (fit_weights_sum [4, 5, 5, 5, 6, 60] 1) \<and>
   js_ge (fit_weights_sum [4, 5, 5, 5, 6, 60] 1) (Fin (3 / 4)) \<and>
   js_ge (Fin (5001 / 6000)) (fit_weights_sum [4, 5, 5, 5, 6, 60] 1) \<and>
   \<not> js_ge (Fin (1 / 10 ^ 6)) (Math_abs (fit_weights_sum [4, 5, 5, 5, 6, 60] 1 - Fin 1))"
proof -
  have a: "simpleGMM [5, 5, 5, 5, 5] 1 = Inr (nan_model 1 (initial_model [5, 5, 5, 5, 5] 1))"
    by (rule simpleGMM_constant [OF _ _ constant_fives]) simp_all
  obtain m w where m: "simpleGMM outlier_data 1 = Inr m" "weights m = [Fin w]"
    and w: "3 / 4 \<le> w" "w \<le> 5001 / 6000"
    using simpleGMM_outlier by blast
  have "fit_weights_sum outlier_data 1 = Fin w"
    using m by (simp add: fit_weights_sum_def weights_sum_single)
  then have b: "fit_weights_sum [4, 5, 5, 5, 6, 60] 1 = Fin w"
    by (simp add: outlier_data_def)
  show ?thesis
    unfolding b using a w
    by (simp add: nan_model_def weights_sum_near_one_def weights_sum_def minus_jsnum_def)
qed

end
